theory Spec2Isabelle
  imports Main "HOL-Library.Multiset"
begin

section \<open>Leaderboard storage (hooks/useLeaderboard and the file-backed server)\<close>

text \<open>
  \<^verbatim>\<open>interface LeaderboardEntry { name; score; totalTime; createdAt }\<close>.
  The numbers are integers here: the game writes a count of correct answers and a
  rounded number of seconds. The field \<open>score\<close> carries a suffix because the game
  state has a field of the same name.
\<close>

record LeaderboardEntry =
  name :: string
  score_e :: int
  totalTime :: int
  createdAt :: string

text \<open>
  The comparator handed to \<^verbatim>\<open>Array.prototype.sort\<close> in \<^verbatim>\<open>sortAndTrim\<close> and in
  the handler of \<^verbatim>\<open>GET /api/leaderboard\<close>:
  \<^verbatim>\<open>if (b.score !== a.score) return b.score - a.score; return a.totalTime - b.totalTime;\<close>
\<close>

definition compareEntries :: "LeaderboardEntry \<Rightarrow> LeaderboardEntry \<Rightarrow> int" where
  "compareEntries a b =
     (if score_e b \<noteq> score_e a then score_e b - score_e a else totalTime a - totalTime b)"

text \<open>
  \<^verbatim>\<open>Array.prototype.sort\<close> is a stable sort: with a consistent comparator its result
  is the one stable sorted arrangement of the array, whatever algorithm the engine runs.
  It is written here as a stable insertion sort: an element goes in front of the first
  element it does not have to follow, and the array is consumed from its right end, so
  that of two elements the comparator ranks alike the one that was earlier stays earlier.
\<close>

fun insertSorted :: "('a \<Rightarrow> 'a \<Rightarrow> int) \<Rightarrow> 'a \<Rightarrow> 'a list \<Rightarrow> 'a list" where
  "insertSorted cmp x [] = [x]"
| "insertSorted cmp x (y # ys) =
     (if cmp x y \<le> 0 then x # y # ys else y # insertSorted cmp x ys)"

definition arraySort :: "('a \<Rightarrow> 'a \<Rightarrow> int) \<Rightarrow> 'a list \<Rightarrow> 'a list" where
  "arraySort cmp xs = foldr (insertSorted cmp) xs []"

text \<open>\<^verbatim>\<open>sortAndTrim(arr)\<close>: sort a copy, keep \<^verbatim>\<open>slice(0, 100)\<close>.\<close>

definition sortAndTrim :: "LeaderboardEntry list \<Rightarrow> LeaderboardEntry list" where
  "sortAndTrim arr = take 100 (arraySort compareEntries arr)"

text \<open>
  The browser store under \<^verbatim>\<open>LEADERBOARD_KEY\<close>: \<open>None\<close> when the key is absent or
  its text does not parse (\<^verbatim>\<open>readLeaderboard\<close> answers \<^verbatim>\<open>[]\<close> in both cases, through
  \<^verbatim>\<open>raw ? ... : []\<close> and through \<^verbatim>\<open>catch\<close>), otherwise the stored array.
\<close>

type_synonym localStorage = "LeaderboardEntry list option"

definition storedEntries :: "localStorage \<Rightarrow> LeaderboardEntry list" where
  "storedEntries st = (case st of None \<Rightarrow> [] | Some data \<Rightarrow> data)"

definition readLeaderboard :: "localStorage \<Rightarrow> LeaderboardEntry list" where
  "readLeaderboard st = (case st of None \<Rightarrow> [] | Some data \<Rightarrow> sortAndTrim data)"

text \<open>\<^verbatim>\<open>writeLeaderboard\<close> returns the list it stored, and the store.\<close>

definition writeLeaderboard ::
  "LeaderboardEntry list \<Rightarrow> LeaderboardEntry list \<times> localStorage" where
  "writeLeaderboard entries = (let data = sortAndTrim entries in (data, Some data))"

definition addLeaderboardEntry ::
  "LeaderboardEntry \<Rightarrow> localStorage \<Rightarrow> LeaderboardEntry list \<times> localStorage" where
  "addLeaderboardEntry entry st = (let arr = readLeaderboard st in writeLeaderboard (arr @ [entry]))"

text \<open>
  The server keeps the array of \<^verbatim>\<open>leaderboard.json\<close> (\<^verbatim>\<open>readDB\<close> answers \<^verbatim>\<open>[]\<close>
  when the file cannot be read). \<^verbatim>\<open>GET /api/leaderboard\<close> sorts what it read and
  answers the first 100; \<^verbatim>\<open>POST /api/leaderboard\<close> refuses a body without a name or
  without numbers for \<^verbatim>\<open>score\<close> and \<^verbatim>\<open>totalTime\<close> (\<open>None\<close> here) with status 400,
  and otherwise appends the entry, its name cut to 50 characters and its time stamp
  taken from the server's clock, without sorting the file.
\<close>

record PostBody =
  body_name :: "string option"
  body_score :: "int option"
  body_totalTime :: "int option"

datatype response = Status400 | Status200

definition getLeaderboard :: "LeaderboardEntry list \<Rightarrow> LeaderboardEntry list" where
  "getLeaderboard db = take 100 (arraySort compareEntries db)"

definition postLeaderboard ::
  "PostBody \<Rightarrow> string \<Rightarrow> LeaderboardEntry list \<Rightarrow> response \<times> LeaderboardEntry list" where
  "postLeaderboard body nowISO db =
     (case (body_name body, body_score body, body_totalTime body) of
        (Some n, Some s, Some t) \<Rightarrow>
          if n = [] then (Status400, db)
          else (Status200,
                db @ [\<lparr>name = take 50 n, score_e = s, totalTime = t, createdAt = nowISO\<rparr>])
      | _ \<Rightarrow> (Status400, db))"

text \<open>
  The order the leaderboard is meant to have, in the words of the specification: a higher
  score first, and of two equal scores the shorter time first.
\<close>

definition rankedBefore :: "LeaderboardEntry \<Rightarrow> LeaderboardEntry \<Rightarrow> bool" where
  "rankedBefore a b \<longleftrightarrow>
     score_e a > score_e b \<or> (score_e a = score_e b \<and> totalTime a \<le> totalTime b)"

text \<open>
  Where a new last element lands in an array that is already sorted: behind every
  element it does not precede strictly.
\<close>

fun insertLast :: "('a \<Rightarrow> 'a \<Rightarrow> int) \<Rightarrow> 'a \<Rightarrow> 'a list \<Rightarrow> 'a list" where
  "insertLast cmp e [] = [e]"
| "insertLast cmp e (y # ys) =
     (if cmp y e \<le> 0 then y # insertLast cmp e ys else e # y # ys)"

section \<open>The quiz: data (types/game.ts)\<close>

datatype operator = Plus | Minus

text \<open>
  \<^verbatim>\<open>interface Question\<close>. The field \<^verbatim>\<open>id\<close> carries a suffix (\<open>id\<close> is the identity
  function of HOL). Operands are naturals between 1 and 10; the answer is an integer, as
  the value \<^verbatim>\<open>parseInt\<close> produces is.
\<close>

record Question =
  id_q :: nat
  num1 :: nat
  num2 :: nat
  operator :: operator
  correctAnswer :: int
  questionText :: string

text \<open>
  \<^verbatim>\<open>interface UserAnswer\<close>: \<open>None\<close> is \<^verbatim>\<open>null\<close>. A \<^verbatim>\<open>Date\<close> is the number of
  milliseconds it holds.
\<close>

record UserAnswer =
  questionId :: nat
  userAnswer :: "int option"
  isCorrect :: "bool option"
  answeredAt :: "nat option"

record GameState =
  questionCounter :: nat
  answerCounter :: nat
  questions :: "Question list"
  userAnswers :: "UserAnswer list"
  score :: nat
  gameStartTime :: "nat option"
  gameEndTime :: "nat option"
  isGameActive :: bool
  canAnswerQuestionId :: "nat option"

text \<open>
  What the component \<^verbatim>\<open>MathGame\<close> keeps besides the game state and what the transitions
  below read or write: the flag \<^verbatim>\<open>finalEndPendingRef\<close>, and whether \<^verbatim>\<open>countdownRef\<close>
  holds the handle of a running interval.
\<close>

record MathGame =
  gameState :: GameState
  finalEndPendingRef :: bool
  countdownRef :: bool

abbreviation TOTAL_QUESTIONS :: nat where
  "TOTAL_QUESTIONS \<equiv> 30"

text \<open>The state of \<^verbatim>\<open>useState\<close> and \<^verbatim>\<open>useRef\<close> when the component is mounted.\<close>

definition mounted :: MathGame where
  "mounted =
     \<lparr>gameState =
        \<lparr>questionCounter = 0, answerCounter = 0, questions = [], userAnswers = [], score = 0,
         gameStartTime = None, gameEndTime = None, isGameActive = False,
         canAnswerQuestionId = None\<rparr>,
      finalEndPendingRef = False, countdownRef = False\<rparr>"

section \<open>Generating the questions (generateQuestion, startGame)\<close>

text \<open>
  One call of \<^verbatim>\<open>generateQuestion\<close> reads \<^verbatim>\<open>Math.random()\<close> three times. A draw holds
  what the call makes of the three numbers: \<^verbatim>\<open>Math.floor(Math.random() * 10)\<close> twice
  (a number from 0 to 9; the model reduces modulo 10 so that every draw is in that
  range) and whether \<^verbatim>\<open>Math.random() > 0.5\<close>.
\<close>

record Draw =
  floor1 :: nat
  floor2 :: nat
  above_half :: bool

text \<open>Decimal digits of a number, as a template string prints it.\<close>

definition digitChar :: "nat \<Rightarrow> char" where
  "digitChar n = ''0123456789'' ! (n mod 10)"

fun showNat :: "nat \<Rightarrow> string" where
  "showNat n = (if n < 10 then [digitChar n] else showNat (n div 10) @ [digitChar (n mod 10)])"

declare showNat.simps [simp del]

definition showOperator :: "operator \<Rightarrow> string" where
  "showOperator op = (case op of Plus \<Rightarrow> ''+'' | Minus \<Rightarrow> ''-'')"

definition generateQuestion :: "nat \<Rightarrow> Draw \<Rightarrow> Question" where
  "generateQuestion questionNumber d =
     (let n1 = floor1 d mod 10 + 1;
          n2 = floor2 d mod 10 + 1;
          op = (if above_half d then Plus else Minus);
          finalNum1 = (if op = Minus \<and> n1 < n2 then n2 else n1);
          finalNum2 = (if op = Minus \<and> n1 < n2 then n1 else n2);
          answer = (if op = Minus then int finalNum1 - int finalNum2
                    else int finalNum1 + int finalNum2)
      in \<lparr>id_q = questionNumber, num1 = finalNum1, num2 = finalNum2, operator = op,
          correctAnswer = answer,
          questionText = showNat finalNum1 @ '' '' @ showOperator op @ '' '' @
                         showNat finalNum2 @ '' = ?''\<rparr>)"

text \<open>
  The \<^verbatim>\<open>do ... while\<close> of \<^verbatim>\<open>startGame\<close> for one slot. The random source is the
  sequence of draws \<open>rng\<close>, read from position \<open>pos\<close> on; \<open>attempts\<close> is the counter
  of the source before the body runs. The result is the question pushed and the position
  of the next unread draw.
\<close>

function drawLoop ::
  "(nat \<Rightarrow> Draw) \<Rightarrow> nat \<Rightarrow> Question list \<Rightarrow> nat \<Rightarrow> nat \<Rightarrow> Question \<times> nat" where
  "drawLoop rng i initialQuestions attempts pos =
     (if Suc attempts < 20 \<and> initialQuestions \<noteq> [] \<and>
         (questionText (generateQuestion i (rng pos)) = questionText (last initialQuestions) \<or>
          correctAnswer (generateQuestion i (rng pos)) = correctAnswer (last initialQuestions))
      then drawLoop rng i initialQuestions (Suc attempts) (Suc pos)
      else (generateQuestion i (rng pos), Suc pos))"
  by pat_completeness auto
termination
  by (relation "measure (\<lambda>(rng, i, qs, attempts, pos). 20 - attempts)") auto

declare drawLoop.simps [simp del]

text \<open>
  The \<^verbatim>\<open>for\<close> loop of \<^verbatim>\<open>startGame\<close>, \<^verbatim>\<open>i\<close> from 1 to \<^verbatim>\<open>TOTAL_QUESTIONS\<close>: the state
  carried round the loop is the two arrays and the position in the random source.
\<close>

definition slot ::
  "(nat \<Rightarrow> Draw) \<Rightarrow> Question list \<times> UserAnswer list \<times> nat \<Rightarrow> nat \<Rightarrow>
   Question list \<times> UserAnswer list \<times> nat" where
  "slot rng acc i =
     (case acc of (initialQuestions, initialAnswers, pos) \<Rightarrow>
        (case drawLoop rng i initialQuestions 0 pos of (q, pos') \<Rightarrow>
           (initialQuestions @ [q],
            initialAnswers @
              [\<lparr>questionId = i, userAnswer = None, isCorrect = None, answeredAt = None\<rparr>],
            pos')))"

definition generateAll :: "(nat \<Rightarrow> Draw) \<Rightarrow> Question list \<times> UserAnswer list \<times> nat" where
  "generateAll rng = foldl (slot rng) ([], [], 0) [1..<Suc TOTAL_QUESTIONS]"

text \<open>
  \<^verbatim>\<open>startGame\<close> replaces the game state; the refs stay as they are. The time-out it
  schedules is the next function: a second later the first question is shown and
  \<^verbatim>\<open>startCountdown\<close> is called, which creates the interval unless one is running.
\<close>

definition startGame :: "(nat \<Rightarrow> Draw) \<Rightarrow> nat \<Rightarrow> MathGame \<Rightarrow> MathGame" where
  "startGame rng now mg =
     (case generateAll rng of (initialQuestions, initialAnswers, pos) \<Rightarrow>
        mg\<lparr>gameState :=
             \<lparr>questionCounter = 0, answerCounter = 0, questions = initialQuestions,
              userAnswers = initialAnswers, score = 0, gameStartTime = Some now,
              gameEndTime = None, isGameActive = True, canAnswerQuestionId = None\<rparr>\<rparr>)"

definition startCountdown :: "MathGame \<Rightarrow> MathGame" where
  "startCountdown mg = (if countdownRef mg then mg else mg\<lparr>countdownRef := True\<rparr>)"

definition startDelayElapsed :: "MathGame \<Rightarrow> MathGame" where
  "startDelayElapsed mg =
     startCountdown (mg\<lparr>gameState := (gameState mg)\<lparr>questionCounter := 1\<rparr>\<rparr>)"

section \<open>The period boundary (the interval callback of startCountdown)\<close>

text \<open>
  A value used as a condition: \<^verbatim>\<open>null\<close> and \<^verbatim>\<open>0\<close> count as false.
\<close>

definition truthy :: "nat option \<Rightarrow> bool" where
  "truthy v = (case v of None \<Rightarrow> False | Some n \<Rightarrow> n \<noteq> 0)"

text \<open>
  The updater given to \<^verbatim>\<open>setGameState\<close> at the end of a period, with the write to
  \<^verbatim>\<open>finalEndPendingRef\<close> it contains. \<open>now\<close> is the value of \<^verbatim>\<open>new Date()\<close>;
  \<open>answering\<close> names the condition of the source's second \<^verbatim>\<open>if\<close>, under which the
  local variables are reassigned.
\<close>

definition advance :: "nat \<Rightarrow> MathGame \<Rightarrow> MathGame" where
  "advance now mg =
     (let prevState = gameState mg in
      if \<not> isGameActive prevState then mg
      else
        let newQuestionCounter =
              (if questionCounter prevState < TOTAL_QUESTIONS then questionCounter prevState + 1
               else questionCounter prevState);
            shouldStartAnswering =
              ((newQuestionCounter = 6 \<and> answerCounter prevState = 0) \<or>
               (newQuestionCounter > 6 \<and> answerCounter prevState > 0));
            answering = (shouldStartAnswering \<and> answerCounter prevState < TOTAL_QUESTIONS);
            newUserAnswers =
              (if answering \<and> truthy (canAnswerQuestionId prevState) then
                 map (\<lambda>answer.
                        if Some (questionId answer) = canAnswerQuestionId prevState
                        then answer\<lparr>answeredAt := Some now\<rparr> else answer)
                     (userAnswers prevState)
               else userAnswers prevState);
            newAnswerCounter =
              (if answering then answerCounter prevState + 1 else answerCounter prevState)
        in
          if answering \<and> newAnswerCounter \<ge> TOTAL_QUESTIONS then
            mg\<lparr>finalEndPendingRef := True,
               gameState := prevState\<lparr>userAnswers := newUserAnswers,
                                      answerCounter := TOTAL_QUESTIONS,
                                      canAnswerQuestionId := Some TOTAL_QUESTIONS\<rparr>\<rparr>
          else
            mg\<lparr>gameState :=
                 prevState\<lparr>questionCounter := newQuestionCounter,
                           answerCounter := newAnswerCounter,
                           userAnswers := newUserAnswers,
                           canAnswerQuestionId :=
                             (if answering then Some newAnswerCounter
                              else canAnswerQuestionId prevState)\<rparr>\<rparr>)"

text \<open>
  What the interval callback does when the remaining time of the period has run out and
  the guard against a second run within 100 ms has passed: if the final wait is pending,
  clear the flag, stop the interval and end the game; otherwise advance.
\<close>

definition periodBoundary :: "nat \<Rightarrow> MathGame \<Rightarrow> MathGame" where
  "periodBoundary now mg =
     (if finalEndPendingRef mg then
        mg\<lparr>finalEndPendingRef := False, countdownRef := False,
           gameState := (gameState mg)\<lparr>isGameActive := False, gameEndTime := Some now\<rparr>\<rparr>
      else advance now mg)"

section \<open>Submitting an answer (handleAnswerSubmit)\<close>

text \<open>
  White space of \<^verbatim>\<open>trim\<close> and \<^verbatim>\<open>parseInt\<close>, for the characters a \<open>string\<close> of HOL
  has: tab, line feed, vertical tab, form feed, carriage return, space.
\<close>

definition isWhiteSpace :: "char \<Rightarrow> bool" where
  "isWhiteSpace c \<longleftrightarrow> (of_char c :: nat) \<in> {9, 10, 11, 12, 13, 32}"

definition trim :: "string \<Rightarrow> string" where
  "trim s = rev (dropWhile isWhiteSpace (rev (dropWhile isWhiteSpace s)))"

text \<open>The value of a character as a digit, if it is a digit or a letter.\<close>

definition digitValue :: "char \<Rightarrow> nat option" where
  "digitValue c =
     (let n = (of_char c :: nat) in
      if 48 \<le> n \<and> n \<le> 57 then Some (n - 48)
      else if 97 \<le> n \<and> n \<le> 122 then Some (n - 87)
      else if 65 \<le> n \<and> n \<le> 90 then Some (n - 55)
      else None)"

definition isRadixDigit :: "nat \<Rightarrow> char \<Rightarrow> bool" where
  "isRadixDigit R c = (case digitValue c of None \<Rightarrow> False | Some v \<Rightarrow> v < R)"

text \<open>
  \<^verbatim>\<open>parseInt(string)\<close> with no radix, following the language standard: skip leading
  white space, take a sign, take the prefix \<^verbatim>\<open>0x\<close> or \<^verbatim>\<open>0X\<close> as radix 16, read the
  longest run of digits of the radix and ignore what follows; \<open>None\<close> is \<^verbatim>\<open>NaN\<close>. The
  result is the exact integer (the engine rounds a number beyond \<open>2^53\<close> to the nearest
  double, which no answer of this game reaches).
\<close>

definition parseInt :: "string \<Rightarrow> int option" where
  "parseInt inputString =
     (let S = dropWhile isWhiteSpace inputString;
          sign = (if S \<noteq> [] \<and> hd S = CHR ''-'' then - 1 else 1 :: int);
          S1 = (if S \<noteq> [] \<and> (hd S = CHR ''+'' \<or> hd S = CHR ''-'') then tl S else S);
          hex = (take 2 S1 = ''0x'' \<or> take 2 S1 = ''0X'');
          R = (if hex then 16 else 10 :: nat);
          S2 = (if hex then drop 2 S1 else S1);
          Z = takeWhile (isRadixDigit R) S2
      in if Z = [] then None
         else Some (sign * int (foldl (\<lambda>acc c. acc * R + the (digitValue c)) 0 Z)))"

text \<open>
  What a call of \<^verbatim>\<open>handleAnswerSubmit\<close> comes to: a silent return, the message that the
  question was answered already, the message asking for a valid number, or an answer
  taken, right or wrong.
\<close>

datatype outcome = Ignored | AlreadyAnswered | InvalidNumber | Answered bool

definition handleAnswerSubmit :: "string \<Rightarrow> nat \<Rightarrow> MathGame \<Rightarrow> outcome \<times> MathGame" where
  "handleAnswerSubmit currentAnswer now mg =
     (let gs = gameState mg in
      case canAnswerQuestionId gs of
        None \<Rightarrow> (Ignored, mg)
      | Some targetQuestionId \<Rightarrow>
          if targetQuestionId = 0 \<or> trim currentAnswer = [] then (Ignored, mg)
          else if (case find (\<lambda>a. questionId a = targetQuestionId) (userAnswers gs) of
                     None \<Rightarrow> False
                   | Some existingAnswer \<Rightarrow> userAnswer existingAnswer \<noteq> None)
          then (AlreadyAnswered, mg)
          else
            (case parseInt currentAnswer of
               None \<Rightarrow> (InvalidNumber, mg)
             | Some answerValue \<Rightarrow>
                 (case find (\<lambda>q. id_q q = targetQuestionId) (questions gs) of
                    None \<Rightarrow> (Ignored, mg)
                  | Some questionToAnswer \<Rightarrow>
                      let correct = (answerValue = correctAnswer questionToAnswer);
                          newUserAnswers =
                            map (\<lambda>answer.
                                   if questionId answer = targetQuestionId
                                   then answer\<lparr>userAnswer := Some answerValue,
                                               isCorrect := Some correct,
                                               answeredAt := Some now\<rparr>
                                   else answer)
                                (userAnswers gs);
                          nextState = gs\<lparr>userAnswers := newUserAnswers,
                                          score := (if correct then score gs + 1 else score gs)\<rparr>;
                          finalState =
                            (if targetQuestionId = TOTAL_QUESTIONS \<and>
                                answerCounter gs \<ge> TOTAL_QUESTIONS
                             then nextState\<lparr>isGameActive := False, gameEndTime := Some now\<rparr>
                             else nextState)
                      in (Answered correct, mg\<lparr>gameState := finalState\<rparr>))))"

section \<open>A session\<close>

text \<open>
  The events of a session after the first question is shown: the end of a period of the
  countdown, with the time it happens at, and the submission of the form, with the text
  of the input field and the time. An interval that was cleared delivers nothing. A
  transition is one atomic step: the state the handler reads is the state it updates.
\<close>

datatype event = PeriodEnd nat | AnswerSubmit string nat

fun deliver :: "MathGame \<Rightarrow> event \<Rightarrow> MathGame" where
  "deliver mg (PeriodEnd now) = (if countdownRef mg then periodBoundary now mg else mg)"
| "deliver mg (AnswerSubmit currentAnswer now) = snd (handleAnswerSubmit currentAnswer now mg)"

definition started :: "(nat \<Rightarrow> Draw) \<Rightarrow> nat \<Rightarrow> MathGame" where
  "started rng now = startDelayElapsed (startGame rng now mounted)"

definition run :: "MathGame \<Rightarrow> event list \<Rightarrow> MathGame" where
  "run mg evs = foldl deliver mg evs"

section \<open>Notions used in the statements\<close>

text \<open>The number of periods that have ended in a sequence of events.\<close>

fun isPeriodEnd :: "event \<Rightarrow> bool" where
  "isPeriodEnd (PeriodEnd now) = True"
| "isPeriodEnd (AnswerSubmit currentAnswer now) = False"

definition periodsEnded :: "event list \<Rightarrow> nat" where
  "periodsEnded evs = length (filter isPeriodEnd evs)"

text \<open>
  The counters and refs after \<open>k\<close> period ends of a session: the question counter runs
  one ahead of \<open>k\<close> up to 30, the answer counter and the question that may be answered
  run four behind it from the fifth period end on, the final wait is pending after the
  34th period end and the interval runs until the 35th.
\<close>

definition shape :: "nat \<Rightarrow> MathGame \<Rightarrow> bool" where
  "shape k mg \<longleftrightarrow>
     questionCounter (gameState mg) = min (k + 1) 30 \<and>
     answerCounter (gameState mg) = (if k < 5 then 0 else min (k - 4) 30) \<and>
     canAnswerQuestionId (gameState mg) = (if k < 5 then None else Some (min (k - 4) 30)) \<and>
     finalEndPendingRef mg = (k = 34) \<and>
     countdownRef mg = (k < 35) \<and>
     (k < 34 \<longrightarrow> isGameActive (gameState mg))"

text \<open>The record \<^verbatim>\<open>startGame\<close> creates for question \<open>i\<close>: nothing submitted, no time.\<close>

definition openAnswer :: "nat \<Rightarrow> UserAnswer" where
  "openAnswer i = \<lparr>questionId = i, userAnswer = None, isCorrect = None, answeredAt = None\<rparr>"

text \<open>
  The largest question number the window has reached after \<open>k\<close> period ends (0 before
  it opens).
\<close>

definition windowAt :: "nat \<Rightarrow> nat" where
  "windowAt k = (if k < 5 then 0 else min (k - 4) 30)"

section \<open>Concrete sessions\<close>

text \<open>
  A random source whose draws give the questions \<open>3 + 4\<close>, \<open>4 + 4\<close>, \<open>5 + 4\<close>, ... (no two
  neighbours alike, so every slot takes its first draw); period ends at 4000, 7000,
  10000, ... ms and nothing else, for a game started at 1000 ms.
\<close>

definition demoRng :: "nat \<Rightarrow> Draw" where
  "demoRng n = \<lparr>floor1 = n + 2, floor2 = 3, above_half = True\<rparr>"

definition periodEnds :: "nat \<Rightarrow> event list" where
  "periodEnds n = map (\<lambda>i. PeriodEnd (1000 + 3000 * i)) [1..<Suc n]"

text \<open>
  A random source that keeps drawing \<open>1 + 1\<close> for the first 21 draws (positions 0 to 20)
  and something else from position 21 on.
\<close>

definition stuckRng :: "nat \<Rightarrow> Draw" where
  "stuckRng n =
     (if n \<le> 20 then \<lparr>floor1 = 0, floor2 = 0, above_half = True\<rparr>
      else \<lparr>floor1 = n, floor2 = 0, above_half = True\<rparr>)"

section \<open>Properties of the leaderboard\<close>

lemma compareEntries_le_iff: "compareEntries a b \<le> 0 \<longleftrightarrow> rankedBefore a b"
  by (auto simp: compareEntries_def rankedBefore_def)

lemma rankedBefore_total: "rankedBefore a b \<or> rankedBefore b a"
  by (auto simp: rankedBefore_def)

lemma rankedBefore_trans: "rankedBefore a b \<Longrightarrow> rankedBefore b c \<Longrightarrow> rankedBefore a c"
  by (auto simp: rankedBefore_def)

lemma set_insertSorted: "set (insertSorted cmp x ys) = insert x (set ys)"
  by (induction ys) auto

lemma mset_insertSorted: "mset (insertSorted cmp x ys) = add_mset x (mset ys)"
  by (induction ys) auto

lemma mset_arraySort: "mset (arraySort cmp xs) = mset xs"
  unfolding arraySort_def by (induction xs) (auto simp: mset_insertSorted)

lemma length_arraySort: "length (arraySort cmp xs) = length xs"
  using mset_arraySort [of cmp xs] by (metis size_mset)

lemma sorted_insertSorted:
  "sorted_wrt rankedBefore ys \<Longrightarrow> sorted_wrt rankedBefore (insertSorted compareEntries x ys)"
proof (induction ys)
  case Nil
  then show ?case by simp
next
  case (Cons y ys)
  show ?case
  proof (cases "compareEntries x y \<le> 0")
    case True
    then have xy: "rankedBefore x y" by (simp add: compareEntries_le_iff)
    have "\<forall>z\<in>set ys. rankedBefore x z"
      using Cons.prems xy rankedBefore_trans by auto
    with True xy Cons.prems show ?thesis by simp
  next
    case False
    then have yx: "rankedBefore y x"
      using rankedBefore_total [of x y] by (simp add: compareEntries_le_iff)
    with False Cons show ?thesis by (auto simp: set_insertSorted)
  qed
qed

lemma sorted_arraySort: "sorted_wrt rankedBefore (arraySort compareEntries xs)"
  unfolding arraySort_def by (induction xs) (auto simp: sorted_insertSorted)

lemma insertSorted_sorted:
  "sorted_wrt rankedBefore (x # ys) \<Longrightarrow> insertSorted compareEntries x ys = x # ys"
  by (cases ys) (auto simp: compareEntries_le_iff)

lemma arraySort_sorted:
  "sorted_wrt rankedBefore xs \<Longrightarrow> arraySort compareEntries xs = xs"
proof (induction xs)
  case Nil
  then show ?case by (simp add: arraySort_def)
next
  case (Cons x xs)
  then have "arraySort compareEntries xs = xs" by simp
  then have "arraySort compareEntries (x # xs) = insertSorted compareEntries x xs"
    by (simp add: arraySort_def)
  with Cons.prems show ?case by (simp only: insertSorted_sorted)
qed

lemma insertSorted_insertLast:
  "insertSorted compareEntries x (insertLast compareEntries e ys) =
   insertLast compareEntries e (insertSorted compareEntries x ys)"
proof (induction ys)
  case Nil
  show ?case
    using rankedBefore_total [of x e]
    by (auto simp: compareEntries_le_iff)
next
  case (Cons y ys)
  show ?case
  proof (cases "compareEntries y e \<le> 0")
    case ye: True
    show ?thesis
    proof (cases "compareEntries x y \<le> 0")
      case True
      with ye have "compareEntries x e \<le> 0"
        using rankedBefore_trans by (auto simp: compareEntries_le_iff)
      with True ye show ?thesis by simp
    next
      case False
      with ye Cons.IH show ?thesis by simp
    qed
  next
    case ye: False
    show ?thesis
    proof (cases "compareEntries x y \<le> 0")
      case True
      with ye show ?thesis by simp
    next
      case False
      with ye have "\<not> compareEntries x e \<le> 0"
        unfolding compareEntries_le_iff
        using rankedBefore_trans [of x e y] rankedBefore_total [of y e] by blast
      with False ye show ?thesis by simp
    qed
  qed
qed

lemma arraySort_snoc:
  "arraySort compareEntries (xs @ [e]) = insertLast compareEntries e (arraySort compareEntries xs)"
  unfolding arraySort_def by (induction xs) (simp_all add: insertSorted_insertLast)

lemma take_insertLast_take:
  "take n (insertLast cmp e (take n ys)) = take n (insertLast cmp e ys)"
proof (induction ys arbitrary: n)
  case Nil
  show ?case by simp
next
  case (Cons y ys)
  show ?case
  proof (cases n)
    case 0
    then show ?thesis by simp
  next
    case (Suc m)
    then show ?thesis using Cons.IH [of m] by (cases m) auto
  qed
qed

lemma sorted_take: "sorted_wrt P xs \<Longrightarrow> sorted_wrt P (take n xs)"
  by (metis append_take_drop_id sorted_wrt_append)

lemma sortAndTrim_idem: "sortAndTrim (sortAndTrim xs) = sortAndTrim xs"
  unfolding sortAndTrim_def
  by (simp add: arraySort_sorted sorted_take sorted_arraySort)

lemma sortAndTrim_snoc: "sortAndTrim (sortAndTrim xs @ [e]) = sortAndTrim (xs @ [e])"
proof -
  let ?S = "arraySort compareEntries xs"
  have "arraySort compareEntries (take 100 ?S @ [e]) = insertLast compareEntries e (take 100 ?S)"
    by (simp add: arraySort_snoc arraySort_sorted sorted_take sorted_arraySort)
  then show ?thesis
    unfolding sortAndTrim_def by (simp add: take_insertLast_take arraySort_snoc)
qed

lemma length_sortAndTrim: "length (sortAndTrim xs) \<le> 100"
  by (simp add: sortAndTrim_def)

lemma sorted_sortAndTrim: "sorted_wrt rankedBefore (sortAndTrim xs)"
  by (simp add: sortAndTrim_def sorted_take sorted_arraySort)

lemma read_after_add:
  "readLeaderboard (snd (addLeaderboardEntry entry st)) = sortAndTrim (storedEntries st @ [entry])"
  by (cases st)
     (simp_all add: addLeaderboardEntry_def readLeaderboard_def writeLeaderboard_def
        storedEntries_def sortAndTrim_idem sortAndTrim_snoc Let_def)

text \<open>
  Claim C8. For every stored leaderboard list, of any length and with any ties,
  \<^verbatim>\<open>addLeaderboardEntry(entry)\<close> followed by \<^verbatim>\<open>readLeaderboard()\<close> yields the first 100
  entries of the sort of the stored entries plus the new one; that sort is a
  rearrangement of those entries in which the score descends and, among equal scores,
  the time ascends; \<^verbatim>\<open>addLeaderboardEntry\<close> itself returns the same list. On the server,
  a \<^verbatim>\<open>POST\<close> that is accepted appends the entry (name cut to 50 characters) and the
  following \<^verbatim>\<open>GET\<close> answers the first 100 entries of the sorted file. Adding
  \<open>{A,10,20}\<close>, \<open>{B,10,15}\<close>, \<open>{C,9,5}\<close> to an empty store makes the read return
  \<open>[B, A, C]\<close>.
\<close>

theorem C8_add_then_readAll:
  "readLeaderboard (snd (addLeaderboardEntry entry st)) =
     take 100 (arraySort compareEntries (storedEntries st @ [entry]))
   \<and> fst (addLeaderboardEntry entry st) = readLeaderboard (snd (addLeaderboardEntry entry st))
   \<and> mset (arraySort compareEntries (storedEntries st @ [entry])) = mset (storedEntries st @ [entry])
   \<and> sorted_wrt rankedBefore (arraySort compareEntries (storedEntries st @ [entry]))
   \<and> sorted_wrt rankedBefore (readLeaderboard (snd (addLeaderboardEntry entry st)))
   \<and> length (readLeaderboard (snd (addLeaderboardEntry entry st))) \<le> 100
   \<and> (fst (postLeaderboard body nowISO db) = Status200 \<longrightarrow>
        (\<exists>n. body_name body = Some n \<and>
          snd (postLeaderboard body nowISO db) =
            db @ [\<lparr>name = take 50 n, score_e = the (body_score body),
                   totalTime = the (body_totalTime body), createdAt = nowISO\<rparr>]) \<and>
        sorted_wrt rankedBefore (getLeaderboard (snd (postLeaderboard body nowISO db))) \<and>
        length (getLeaderboard (snd (postLeaderboard body nowISO db))) \<le> 100 \<and>
        getLeaderboard (snd (postLeaderboard body nowISO db)) =
          take 100 (arraySort compareEntries (snd (postLeaderboard body nowISO db))))
   \<and> (let A = \<lparr>name = ''A'', score_e = 10, totalTime = 20, createdAt = ''''\<rparr>;
           B = \<lparr>name = ''B'', score_e = 10, totalTime = 15, createdAt = ''''\<rparr>;
           C = \<lparr>name = ''C'', score_e = 9, totalTime = 5, createdAt = ''''\<rparr>
       in readLeaderboard
            (snd (addLeaderboardEntry C
              (snd (addLeaderboardEntry B (snd (addLeaderboardEntry A None)))))) = [B, A, C])"
proof -
  have r: "readLeaderboard (snd (addLeaderboardEntry entry st)) =
      take 100 (arraySort compareEntries (storedEntries st @ [entry]))"
    by (simp add: read_after_add sortAndTrim_def)
  have f: "fst (addLeaderboardEntry entry st) = readLeaderboard (snd (addLeaderboardEntry entry st))"
    by (simp add: addLeaderboardEntry_def writeLeaderboard_def readLeaderboard_def
        sortAndTrim_idem Let_def)
  have m: "mset (arraySort compareEntries (storedEntries st @ [entry])) =
      mset (storedEntries st @ [entry])"
    by (rule mset_arraySort)
  have s1: "sorted_wrt rankedBefore (arraySort compareEntries (storedEntries st @ [entry]))"
    by (rule sorted_arraySort)
  have s2: "sorted_wrt rankedBefore (readLeaderboard (snd (addLeaderboardEntry entry st)))"
    by (simp add: read_after_add sorted_sortAndTrim)
  have l: "length (readLeaderboard (snd (addLeaderboardEntry entry st))) \<le> 100"
    by (simp add: read_after_add length_sortAndTrim)
  have srv: "fst (postLeaderboard body nowISO db) = Status200 \<longrightarrow>
        (\<exists>n. body_name body = Some n \<and>
          snd (postLeaderboard body nowISO db) =
            db @ [\<lparr>name = take 50 n, score_e = the (body_score body),
                   totalTime = the (body_totalTime body), createdAt = nowISO\<rparr>]) \<and>
        sorted_wrt rankedBefore (getLeaderboard (snd (postLeaderboard body nowISO db))) \<and>
        length (getLeaderboard (snd (postLeaderboard body nowISO db))) \<le> 100 \<and>
        getLeaderboard (snd (postLeaderboard body nowISO db)) =
          take 100 (arraySort compareEntries (snd (postLeaderboard body nowISO db)))"
    by (auto simp: postLeaderboard_def getLeaderboard_def sorted_take sorted_arraySort
        split: option.splits if_splits)
  have ex: "(let A = \<lparr>name = ''A'', score_e = 10, totalTime = 20, createdAt = ''''\<rparr>;
           B = \<lparr>name = ''B'', score_e = 10, totalTime = 15, createdAt = ''''\<rparr>;
           C = \<lparr>name = ''C'', score_e = 9, totalTime = 5, createdAt = ''''\<rparr>
       in readLeaderboard
            (snd (addLeaderboardEntry C
              (snd (addLeaderboardEntry B (snd (addLeaderboardEntry A None)))))) = [B, A, C])"
    by (simp add: addLeaderboardEntry_def writeLeaderboard_def readLeaderboard_def
        sortAndTrim_def arraySort_def compareEntries_def Let_def)
  from r f m s1 s2 l srv ex show ?thesis by (intro conjI)
qed

theorem C8_add_then_readAll_witness:
  "fst (postLeaderboard \<lparr>body_name = Some ''Ann'', body_score = Some 7, body_totalTime = Some 90\<rparr>
         ''2024-01-01T00:00:00.000Z''
         [\<lparr>name = ''Bob'', score_e = 9, totalTime = 80, createdAt = ''''\<rparr>]) = Status200
   \<and> getLeaderboard (snd (postLeaderboard
         \<lparr>body_name = Some ''Ann'', body_score = Some 7, body_totalTime = Some 90\<rparr>
         ''2024-01-01T00:00:00.000Z''
         [\<lparr>name = ''Bob'', score_e = 9, totalTime = 80, createdAt = ''''\<rparr>])) =
       take 100 (arraySort compareEntries
         [\<lparr>name = ''Bob'', score_e = 9, totalTime = 80, createdAt = ''''\<rparr>,
          \<lparr>name = ''Ann'', score_e = 7, totalTime = 90, createdAt = ''2024-01-01T00:00:00.000Z''\<rparr>])"
  using C8_add_then_readAll
    [of undefined None
        "\<lparr>body_name = Some ''Ann'', body_score = Some 7, body_totalTime = Some 90\<rparr>"
        "''2024-01-01T00:00:00.000Z''"
        "[\<lparr>name = ''Bob'', score_e = 9, totalTime = 80, createdAt = ''''\<rparr>]"]
  by (simp add: postLeaderboard_def)

section \<open>Properties of the quiz\<close>

lemma shape_started: "shape 0 (started rng now)"
  by (simp add: shape_def started_def startDelayElapsed_def startCountdown_def startGame_def
      mounted_def split: prod.splits)

lemma shape_advance:
  assumes "shape k mg" "k < 34"
  shows "shape (Suc k) (advance now mg)"
proof -
  from assms have a: "isGameActive (gameState mg)" by (simp add: shape_def)
  consider "k < 4" | "k = 4" | "5 \<le> k" "k < 33" | "k = 33" using assms(2) by linarith
  then show ?thesis
  proof cases
    case 1
    with assms a show ?thesis by (simp add: shape_def advance_def Let_def)
  next
    case 2
    with assms a show ?thesis by (simp add: shape_def advance_def Let_def)
  next
    case 3
    with assms a show ?thesis by (auto simp add: shape_def advance_def Let_def min_def)
  next
    case 4
    with assms a show ?thesis by (simp add: shape_def advance_def Let_def)
  qed
qed

lemma shape_periodEnd:
  assumes "shape k mg"
  shows "shape (Suc k) (deliver mg (PeriodEnd now))"
proof -
  consider "k < 34" | "k = 34" | "35 \<le> k" by linarith
  then show ?thesis
  proof cases
    case 1
    with assms have "\<not> finalEndPendingRef mg" "countdownRef mg" by (simp_all add: shape_def)
    with shape_advance [OF assms 1] show ?thesis by (simp add: periodBoundary_def)
  next
    case 2
    with assms show ?thesis by (simp add: shape_def periodBoundary_def)
  next
    case 3
    with assms show ?thesis by (simp add: shape_def)
  qed
qed

lemma submit_counters:
  "questionCounter (gameState (snd (handleAnswerSubmit a now mg))) = questionCounter (gameState mg)
   \<and> answerCounter (gameState (snd (handleAnswerSubmit a now mg))) = answerCounter (gameState mg)
   \<and> canAnswerQuestionId (gameState (snd (handleAnswerSubmit a now mg))) = canAnswerQuestionId (gameState mg)
   \<and> finalEndPendingRef (snd (handleAnswerSubmit a now mg)) = finalEndPendingRef mg
   \<and> countdownRef (snd (handleAnswerSubmit a now mg)) = countdownRef mg"
  by (simp add: handleAnswerSubmit_def Let_def split: option.splits)

lemma submit_active:
  "isGameActive (gameState mg) \<Longrightarrow> \<not> isGameActive (gameState (snd (handleAnswerSubmit a now mg)))
    \<Longrightarrow> 30 \<le> answerCounter (gameState mg)"
  by (simp add: handleAnswerSubmit_def Let_def split: option.splits if_splits)

lemma shape_submit:
  assumes "shape k mg"
  shows "shape k (deliver mg (AnswerSubmit a now))"
proof -
  have "isGameActive (gameState (snd (handleAnswerSubmit a now mg)))" if "k < 34"
  proof (rule ccontr)
    assume n: "\<not> isGameActive (gameState (snd (handleAnswerSubmit a now mg)))"
    from assms that have "isGameActive (gameState mg)" by (simp add: shape_def)
    from submit_active [OF this n] have "30 \<le> answerCounter (gameState mg)" .
    with assms that show False by (simp add: shape_def split: if_splits)
  qed
  with assms show ?thesis
    unfolding shape_def by (simp add: submit_counters)
qed

lemma shape_run: "shape k mg \<Longrightarrow> shape (k + periodsEnded evs) (run mg evs)"
proof (induction evs arbitrary: k mg)
  case Nil
  then show ?case by (simp add: run_def periodsEnded_def)
next
  case (Cons ev evs)
  show ?case
  proof (cases ev)
    case (PeriodEnd now)
    with Cons.IH [OF shape_periodEnd [OF Cons.prems, of now]] show ?thesis
      by (simp add: run_def periodsEnded_def)
  next
    case (AnswerSubmit a now)
    with Cons.IH [OF shape_submit [OF Cons.prems, of a now]] show ?thesis
      by (simp add: run_def periodsEnded_def)
  qed
qed

lemma periodsEnded_snoc:
  "periodsEnded (evs @ [ev]) = (if isPeriodEnd ev then Suc (periodsEnded evs) else periodsEnded evs)"
  by (simp add: periodsEnded_def)

lemma run_snoc: "run mg (evs @ [ev]) = deliver (run mg evs) ev"
  by (simp add: run_def)

lemma shape_session: "shape (periodsEnded evs) (run (started rng t0) evs)"
  using shape_run [OF shape_started, of evs] by simp

text \<open>
  Claim C5. In every run of a session, whatever submissions come in between, the
  counters are a function of the number \<open>k\<close> of period ends so far: the question
  counter is \<open>min (k + 1) 30\<close>, and the question that may be answered is none while
  \<open>k < 5\<close> and \<open>min (k - 4) 30\<close> from then on, as is the answer counter. So the window
  opens at the fifth period end, the one at which the question counter first reaches 6;
  the question that may be answered then takes the values 1, 2, ..., 29 in this order,
  one step at each period end, and stays at 30 from the period end at which the answer
  counter reaches 30.
\<close>

theorem C5_eligibility_sequence:
  "questionCounter (gameState (run (started rng t0) evs)) = min (periodsEnded evs + 1) 30
   \<and> answerCounter (gameState (run (started rng t0) evs)) =
       (if periodsEnded evs < 5 then 0 else min (periodsEnded evs - 4) 30)
   \<and> canAnswerQuestionId (gameState (run (started rng t0) evs)) =
       (if periodsEnded evs < 5 then None else Some (min (periodsEnded evs - 4) 30))"
  using shape_session [of evs rng t0] unfolding shape_def by simp

text \<open>
  Claim C4. In a session the question counter and the answer counter start at 0, are 1
  and 0 when the first question is shown, never decrease from a state reached by period
  ends and submissions to the state after the next event, never exceed 30, and the
  answer counter is at most the question counter in every such state.
\<close>

theorem C4_counters:
  "questionCounter (gameState (startGame rng t0 mounted)) = 0
   \<and> answerCounter (gameState (startGame rng t0 mounted)) = 0
   \<and> questionCounter (gameState (started rng t0)) = 1
   \<and> answerCounter (gameState (started rng t0)) = 0
   \<and> questionCounter (gameState (run (started rng t0) evs))
       \<le> questionCounter (gameState (deliver (run (started rng t0) evs) ev))
   \<and> answerCounter (gameState (run (started rng t0) evs))
       \<le> answerCounter (gameState (deliver (run (started rng t0) evs) ev))
   \<and> questionCounter (gameState (run (started rng t0) evs)) \<le> 30
   \<and> answerCounter (gameState (run (started rng t0) evs)) \<le> 30
   \<and> answerCounter (gameState (run (started rng t0) evs))
       \<le> questionCounter (gameState (run (started rng t0) evs))"
proof -
  let ?mg = "run (started rng t0) evs"
  let ?k = "periodsEnded evs"
  have s: "shape ?k ?mg" by (rule shape_session)
  have "shape (periodsEnded (evs @ [ev])) (run (started rng t0) (evs @ [ev]))"
    by (rule shape_session)
  then have s': "shape (if isPeriodEnd ev then Suc ?k else ?k) (deliver ?mg ev)"
    by (simp add: periodsEnded_snoc run_snoc)
  have i: "questionCounter (gameState (startGame rng t0 mounted)) = 0
      \<and> answerCounter (gameState (startGame rng t0 mounted)) = 0
      \<and> questionCounter (gameState (started rng t0)) = 1
      \<and> answerCounter (gameState (started rng t0)) = 0"
    by (simp add: started_def startDelayElapsed_def startCountdown_def startGame_def
        mounted_def split: prod.splits)
  have q: "questionCounter (gameState ?mg) \<le> questionCounter (gameState (deliver ?mg ev))"
    using s s' by (cases "isPeriodEnd ev") (simp_all add: shape_def)
  have a: "answerCounter (gameState ?mg) \<le> answerCounter (gameState (deliver ?mg ev))"
    using s s' by (cases "isPeriodEnd ev") (auto simp add: shape_def)
  have b: "questionCounter (gameState ?mg) \<le> 30 \<and> answerCounter (gameState ?mg) \<le> 30
      \<and> answerCounter (gameState ?mg) \<le> questionCounter (gameState ?mg)"
    using s by (auto simp add: shape_def)
  from i q a b show ?thesis by simp
qed

text \<open>
  Claim C10. The end of a period leaves the score, the questions and the start time of
  the game as they are, whether it advances the counters, arms the final wait or ends
  the game. Only the ending one (the final wait is pending) changes \<open>isGameActive\<close> and
  \<open>gameEndTime\<close>, and it changes nothing else of the game state.
\<close>

theorem C10_boundary_frame:
  "score (gameState (periodBoundary now mg)) = score (gameState mg)
   \<and> questions (gameState (periodBoundary now mg)) = questions (gameState mg)
   \<and> gameStartTime (gameState (periodBoundary now mg)) = gameStartTime (gameState mg)
   \<and> (if finalEndPendingRef mg
       then questionCounter (gameState (periodBoundary now mg)) = questionCounter (gameState mg)
          \<and> answerCounter (gameState (periodBoundary now mg)) = answerCounter (gameState mg)
          \<and> userAnswers (gameState (periodBoundary now mg)) = userAnswers (gameState mg)
          \<and> canAnswerQuestionId (gameState (periodBoundary now mg)) =
              canAnswerQuestionId (gameState mg)
          \<and> \<not> isGameActive (gameState (periodBoundary now mg))
          \<and> gameEndTime (gameState (periodBoundary now mg)) = Some now
       else isGameActive (gameState (periodBoundary now mg)) = isGameActive (gameState mg)
          \<and> gameEndTime (gameState (periodBoundary now mg)) = gameEndTime (gameState mg))
   \<and> score (gameState (deliver mg (PeriodEnd now))) = score (gameState mg)
   \<and> questions (gameState (deliver mg (PeriodEnd now))) = questions (gameState mg)
   \<and> gameStartTime (gameState (deliver mg (PeriodEnd now))) = gameStartTime (gameState mg)"
  by (simp add: periodBoundary_def advance_def Let_def)

lemma trim_empty: "trim s = [] \<Longrightarrow> dropWhile isWhiteSpace s = []"
proof -
  assume "trim s = []"
  then have "dropWhile isWhiteSpace (rev (dropWhile isWhiteSpace s)) = []"
    by (simp add: trim_def)
  then have all: "\<forall>x\<in>set (dropWhile isWhiteSpace s). isWhiteSpace x"
    by (simp add: dropWhile_eq_Nil_conv)
  show ?thesis
  proof (rule ccontr)
    assume ne: "dropWhile isWhiteSpace s \<noteq> []"
    then have "\<not> isWhiteSpace (hd (dropWhile isWhiteSpace s))" by (rule hd_dropWhile)
    moreover have "hd (dropWhile isWhiteSpace s) \<in> set (dropWhile isWhiteSpace s)"
      using ne by simp
    ultimately show False using all by blast
  qed
qed

lemma parseInt_blank: "trim s = [] \<Longrightarrow> parseInt s = None"
  by (simp add: parseInt_def trim_empty)

text \<open>
  Claim C6. When a question may be answered, its record holds no answer yet and the text
  parses to \<open>v\<close>, the submission is taken: the outcome says whether \<open>v\<close> is the correct
  answer of that question, the score goes up by exactly 1 if it is and stays if it is
  not, and the record of the question now holds \<open>v\<close>, that verdict and the time. The end
  of a period, which is what passes over a question nobody answered, never changes the
  score.
\<close>

theorem C6_score:
  assumes "canAnswerQuestionId (gameState mg) = Some t" and "t \<noteq> 0"
    and "find (\<lambda>a. questionId a = t) (userAnswers (gameState mg)) = Some r"
    and "userAnswer r = None"
    and "parseInt currentAnswer = Some v"
    and "find (\<lambda>q. id_q q = t) (questions (gameState mg)) = Some q"
  shows "fst (handleAnswerSubmit currentAnswer now mg) = Answered (v = correctAnswer q)
    \<and> score (gameState (snd (handleAnswerSubmit currentAnswer now mg))) =
        (if v = correctAnswer q then score (gameState mg) + 1 else score (gameState mg))
    \<and> find (\<lambda>a. questionId a = t)
          (userAnswers (gameState (snd (handleAnswerSubmit currentAnswer now mg)))) =
        Some (r\<lparr>userAnswer := Some v, isCorrect := Some (v = correctAnswer q),
                answeredAt := Some now\<rparr>)
    \<and> score (gameState (periodBoundary now' mg')) = score (gameState mg')"
proof -
  let ?res = "handleAnswerSubmit currentAnswer now mg"
  let ?g = "\<lambda>answer. answer\<lparr>userAnswer := Some v, isCorrect := Some (v = correctAnswer q),
                answeredAt := Some now\<rparr>"
  from assms(5) have nb: "trim currentAnswer \<noteq> []"
    using parseInt_blank [of currentAnswer] by auto
  have f: "find (\<lambda>a. questionId a = t)
      (map (\<lambda>answer. if questionId answer = t then g answer else answer) xs) = Some (g r)"
    if "find (\<lambda>a. questionId a = t) xs = Some r" and "\<And>a. questionId (g a) = questionId a"
    for xs g
    using that by (induction xs) (auto split: if_splits)
  have o: "fst ?res = Answered (v = correctAnswer q)"
    using assms nb by (simp add: handleAnswerSubmit_def Let_def)
  have s: "score (gameState (snd ?res)) =
      (if v = correctAnswer q then score (gameState mg) + 1 else score (gameState mg))"
    using assms nb by (simp add: handleAnswerSubmit_def Let_def)
  have "userAnswers (gameState (snd ?res)) =
      map (\<lambda>answer. if questionId answer = t then ?g answer else answer)
        (userAnswers (gameState mg))"
    using assms nb by (simp add: handleAnswerSubmit_def Let_def)
  then have u: "find (\<lambda>a. questionId a = t) (userAnswers (gameState (snd ?res))) = Some (?g r)"
    using f [of "userAnswers (gameState mg)" ?g] assms(3) by simp
  have b: "score (gameState (periodBoundary now' mg')) = score (gameState mg')"
    by (simp add: periodBoundary_def advance_def Let_def)
  from o s u b show ?thesis by (intro conjI)
qed

lemma drawLoop_id: "id_q (fst (drawLoop rng i qs a pos)) = i"
  apply (induction rng i qs a pos rule: drawLoop.induct)
  apply (subst drawLoop.simps)
  apply (auto simp: generateQuestion_def Let_def)
  done

lemma slot_step:
  "drawLoop rng i qs 0 pos = (q, p) \<Longrightarrow>
   slot rng (qs, as, pos) i = (qs @ [q], as @ [openAnswer i], p)"
  by (simp add: slot_def openAnswer_def)

lemma foldl_slot:
  "foldl (slot rng) (qs, as, pos) is = (qs', as', pos') \<Longrightarrow>
   as' = as @ map openAnswer is \<and> map id_q qs' = map id_q qs @ is"
proof (induction "is" arbitrary: qs as pos)
  case Nil
  then show ?case by simp
next
  case (Cons i "is")
  obtain q p where d: "drawLoop rng i qs 0 pos = (q, p)" by (cases "drawLoop rng i qs 0 pos")
  then have q: "id_q q = i" using drawLoop_id [of rng i qs 0 pos] by simp
  from Cons.prems have "foldl (slot rng) (slot rng (qs, as, pos) i) is = (qs', as', pos')"
    by (simp only: foldl_Cons)
  then have "foldl (slot rng) (qs @ [q], as @ [openAnswer i], p) is = (qs', as', pos')"
    by (simp only: slot_step [OF d])
  from Cons.IH [OF this] q show ?case by simp
qed

lemma generateAll_shape:
  "generateAll rng = (qs, as, pos) \<Longrightarrow>
   as = map openAnswer [1..<31] \<and> map id_q qs = [1..<31]"
proof -
  assume "generateAll rng = (qs, as, pos)"
  then have "foldl (slot rng) ([], [], 0) [1..<31] = (qs, as, pos)"
    by (simp only: generateAll_def eval_nat_numeral)
  from foldl_slot [OF this] show ?thesis by simp
qed

lemma started_records:
  "userAnswers (gameState (started rng t0)) = map openAnswer [1..<31]
   \<and> map id_q (questions (gameState (started rng t0))) = [1..<31]"
proof -
  obtain qs as pos where g: "generateAll rng = (qs, as, pos)" by (cases "generateAll rng") auto
  then have "userAnswers (gameState (started rng t0)) = as
      \<and> questions (gameState (started rng t0)) = qs"
    by (simp add: started_def startDelayElapsed_def startCountdown_def startGame_def mounted_def)
  with generateAll_shape [OF g] show ?thesis by (simp only:)
qed

lemma map_key_update:
  "(\<And>a. f (g a) = f a) \<Longrightarrow> map f (map (\<lambda>a. if P a then g a else a) xs) = map f xs"
  by (induction xs) auto

lemma advance_userAnswers:
  "userAnswers (gameState (advance now mg)) = userAnswers (gameState mg) \<or>
   userAnswers (gameState (advance now mg)) =
     map (\<lambda>answer. if Some (questionId answer) = canAnswerQuestionId (gameState mg)
                    then answer\<lparr>answeredAt := Some now\<rparr> else answer)
         (userAnswers (gameState mg))"
  by (simp add: advance_def Let_def)

lemma periodBoundary_userAnswers:
  "userAnswers (gameState (periodBoundary now mg)) = userAnswers (gameState mg) \<or>
   userAnswers (gameState (periodBoundary now mg)) =
     map (\<lambda>answer. if Some (questionId answer) = canAnswerQuestionId (gameState mg)
                    then answer\<lparr>answeredAt := Some now\<rparr> else answer)
         (userAnswers (gameState mg))"
  using advance_userAnswers [of now mg] by (simp add: periodBoundary_def)

lemma submit_cases:
  obtains (unchanged) x where "handleAnswerSubmit a now mg = (x, mg)" and "\<forall>c. x \<noteq> Answered c"
  | (answered) t v q where "canAnswerQuestionId (gameState mg) = Some t" and "t \<noteq> 0"
      and "parseInt a = Some v"
      and "find (\<lambda>q. id_q q = t) (questions (gameState mg)) = Some q"
      and "case find (\<lambda>r. questionId r = t) (userAnswers (gameState mg)) of
             None \<Rightarrow> True | Some r \<Rightarrow> userAnswer r = None"
      and "handleAnswerSubmit a now mg =
        (Answered (v = correctAnswer q),
         mg\<lparr>gameState :=
           (if t = TOTAL_QUESTIONS \<and> answerCounter (gameState mg) \<ge> TOTAL_QUESTIONS
            then (gameState mg)
                   \<lparr>userAnswers :=
                      map (\<lambda>answer. if questionId answer = t
                                     then answer\<lparr>userAnswer := Some v,
                                                 isCorrect := Some (v = correctAnswer q),
                                                 answeredAt := Some now\<rparr>
                                     else answer)
                          (userAnswers (gameState mg)),
                    score := (if v = correctAnswer q then score (gameState mg) + 1
                              else score (gameState mg)),
                    isGameActive := False, gameEndTime := Some now\<rparr>
            else (gameState mg)
                   \<lparr>userAnswers :=
                      map (\<lambda>answer. if questionId answer = t
                                     then answer\<lparr>userAnswer := Some v,
                                                 isCorrect := Some (v = correctAnswer q),
                                                 answeredAt := Some now\<rparr>
                                     else answer)
                          (userAnswers (gameState mg)),
                    score := (if v = correctAnswer q then score (gameState mg) + 1
                              else score (gameState mg))\<rparr>)\<rparr>)"
proof (cases "canAnswerQuestionId (gameState mg)")
  case None
  then have "handleAnswerSubmit a now mg = (Ignored, mg)"
    by (simp add: handleAnswerSubmit_def)
  then show thesis using unchanged by simp
next
  case (Some t)
  show thesis
  proof (cases "t = 0 \<or> trim a = []")
    case True
    with Some have "handleAnswerSubmit a now mg = (Ignored, mg)"
      by (auto simp: handleAnswerSubmit_def)
    then show thesis using unchanged by simp
  next
    case guard: False
    show thesis
    proof (cases "case find (\<lambda>r. questionId r = t) (userAnswers (gameState mg)) of
             None \<Rightarrow> True | Some r \<Rightarrow> userAnswer r = None")
      case False
      with Some guard have "handleAnswerSubmit a now mg = (AlreadyAnswered, mg)"
        by (auto simp: handleAnswerSubmit_def split: option.splits)
      then show thesis using unchanged by simp
    next
      case op: True
      show thesis
      proof (cases "parseInt a")
        case None
        with Some guard op have "handleAnswerSubmit a now mg = (InvalidNumber, mg)"
          by (auto simp: handleAnswerSubmit_def split: option.splits)
        then show thesis using unchanged by simp
      next
        case v: (Some v)
        show thesis
        proof (cases "find (\<lambda>q. id_q q = t) (questions (gameState mg))")
          case None
          with Some guard op v have "handleAnswerSubmit a now mg = (Ignored, mg)"
            by (auto simp: handleAnswerSubmit_def split: option.splits)
          then show thesis using unchanged by simp
        next
          case q: (Some q)
          from guard have t: "t \<noteq> 0" by simp
          show thesis
            by (rule answered [OF Some t v q op])
               (use Some guard op v q in
                 \<open>auto simp: handleAnswerSubmit_def Let_def split: option.splits\<close>)
        qed
      qed
    qed
  qed
qed

lemma submit_userAnswers:
  "userAnswers (gameState (snd (handleAnswerSubmit a now mg))) = userAnswers (gameState mg) \<or>
   (\<exists>t v c. canAnswerQuestionId (gameState mg) = Some t \<and>
      (case find (\<lambda>r. questionId r = t) (userAnswers (gameState mg)) of
         None \<Rightarrow> True | Some r \<Rightarrow> userAnswer r = None) \<and>
      userAnswers (gameState (snd (handleAnswerSubmit a now mg))) =
        map (\<lambda>answer. if questionId answer = t
                       then answer\<lparr>userAnswer := Some v, isCorrect := Some c,
                                   answeredAt := Some now\<rparr>
                       else answer)
            (userAnswers (gameState mg)))"
proof (cases rule: submit_cases [of a now mg])
  case (unchanged x)
  then show ?thesis by simp
next
  case (answered t v q)
  have "userAnswers (gameState (snd (handleAnswerSubmit a now mg))) =
        map (\<lambda>answer. if questionId answer = t
                       then answer\<lparr>userAnswer := Some v, isCorrect := Some (v = correctAnswer q),
                                   answeredAt := Some now\<rparr>
                       else answer)
            (userAnswers (gameState mg))"
    by (simp add: answered(6))
  with answered(1,5) show ?thesis by blast
qed

lemma questions_fixed:
  "questions (gameState (deliver mg ev)) = questions (gameState mg)"
proof (cases ev)
  case (PeriodEnd now)
  then show ?thesis by (simp add: periodBoundary_def advance_def Let_def)
next
  case (AnswerSubmit a now)
  then show ?thesis by (simp add: handleAnswerSubmit_def Let_def split: option.splits)
qed

lemma deliver_ids:
  "map questionId (userAnswers (gameState (deliver mg ev))) =
     map questionId (userAnswers (gameState mg))
   \<and> questions (gameState (deliver mg ev)) = questions (gameState mg)"
proof (cases ev)
  case (PeriodEnd now)
  from periodBoundary_userAnswers [of now mg]
  have "map questionId (userAnswers (gameState (periodBoundary now mg))) =
      map questionId (userAnswers (gameState mg))"
    by (auto simp: map_key_update)
  with PeriodEnd questions_fixed [of mg ev] show ?thesis by simp
next
  case (AnswerSubmit a now)
  from submit_userAnswers [of a now mg]
  have "map questionId (userAnswers (gameState (snd (handleAnswerSubmit a now mg)))) =
      map questionId (userAnswers (gameState mg))"
    by (auto simp: map_key_update)
  with AnswerSubmit questions_fixed [of mg ev] show ?thesis by simp
qed

lemma run_ids:
  "map questionId (userAnswers (gameState (run mg evs))) =
     map questionId (userAnswers (gameState mg))
   \<and> questions (gameState (run mg evs)) = questions (gameState mg)"
proof (induction evs arbitrary: mg)
  case Nil
  show ?case by (simp add: run_def)
next
  case (Cons ev evs)
  from Cons [of "deliver mg ev"] deliver_ids [of mg ev] show ?case by (simp add: run_def)
qed

lemma session_ids:
  "map questionId (userAnswers (gameState (run (started rng t0) evs))) = [1..<31]
   \<and> map id_q (questions (gameState (run (started rng t0) evs))) = [1..<31]"
proof -
  have "map questionId (map openAnswer xs) = xs" for xs
    by (induction xs) (simp_all add: openAnswer_def)
  with run_ids [of "started rng t0" evs] started_records [of rng t0] show ?thesis
    by (simp only:)
qed

lemma find_by_key:
  "distinct (map f xs) \<Longrightarrow> i < length xs \<Longrightarrow> find (\<lambda>a. f a = f (xs ! i)) xs = Some (xs ! i)"
proof (induction xs arbitrary: i)
  case Nil
  then show ?case by simp
next
  case (Cons x xs)
  then show ?case by (cases i) auto
qed

lemma numbered_length: "map f xs = [1..<31] \<Longrightarrow> length xs = 30"
proof -
  assume "map f xs = [1..<31]"
  then have "length (map f xs) = length [1..<31]" by (simp only:)
  then show ?thesis by (simp only: length_map length_upt)
qed

lemma numbered_nth:
  assumes "map f xs = [1..<31]" and "i < 30"
  shows "f (xs ! i) = Suc i"
proof -
  have l: "i < length xs" using numbered_length [OF assms(1)] assms(2) by simp
  have "f (xs ! i) = map f xs ! i" using l by (simp only: nth_map)
  also have "\<dots> = [1..<31] ! i" by (simp only: assms(1))
  also have "\<dots> = 1 + i" using assms(2) by (intro nth_upt) simp
  finally show ?thesis by simp
qed

lemma find_numbered:
  assumes "map f xs = [1..<31]" and "i < 30"
  shows "find (\<lambda>a. f a = Suc i) xs = Some (xs ! i)"
proof -
  have d: "distinct (map f xs)" by (simp only: assms(1) distinct_upt)
  have l: "i < length xs" using numbered_length [OF assms(1)] assms(2) by simp
  from find_by_key [OF d l] numbered_nth [OF assms] show ?thesis by (simp only:)
qed

lemma nth_stamp:
  "i < length xs \<Longrightarrow>
   (map (\<lambda>a. if P a then g a else a) xs) ! i = (if P (xs ! i) then g (xs ! i) else xs ! i)"
  by simp

lemma length_userAnswers:
  "length (userAnswers (gameState (deliver mg ev))) = length (userAnswers (gameState mg))"
  using deliver_ids [of mg ev] by (metis length_map)

text \<open>What one event does to one record.\<close>

lemma boundary_record:
  assumes "i < length (userAnswers (gameState mg))"
  shows "userAnswer (userAnswers (gameState (deliver mg (PeriodEnd now))) ! i) =
           userAnswer (userAnswers (gameState mg) ! i)
       \<and> isCorrect (userAnswers (gameState (deliver mg (PeriodEnd now))) ! i) =
           isCorrect (userAnswers (gameState mg) ! i)
       \<and> (answeredAt (userAnswers (gameState mg) ! i) \<noteq> None \<longrightarrow>
           answeredAt (userAnswers (gameState (deliver mg (PeriodEnd now))) ! i) \<noteq> None)
       \<and> (Some (questionId (userAnswers (gameState mg) ! i)) \<noteq> canAnswerQuestionId (gameState mg)
           \<longrightarrow> userAnswers (gameState (deliver mg (PeriodEnd now))) ! i =
                userAnswers (gameState mg) ! i)"
proof (cases "countdownRef mg")
  case False
  then show ?thesis by simp
next
  case True
  from periodBoundary_userAnswers [of now mg] assms True show ?thesis
    by (auto simp: nth_stamp)
qed

lemma submit_record:
  assumes "i < length (userAnswers (gameState mg))"
    and "distinct (map questionId (userAnswers (gameState mg)))"
  shows "(userAnswer (userAnswers (gameState mg) ! i) \<noteq> None \<or>
          Some (questionId (userAnswers (gameState mg) ! i)) \<noteq> canAnswerQuestionId (gameState mg)
           \<longrightarrow> userAnswers (gameState (deliver mg (AnswerSubmit a now))) ! i =
                userAnswers (gameState mg) ! i)
       \<and> (answeredAt (userAnswers (gameState mg) ! i) \<noteq> None \<longrightarrow>
           answeredAt (userAnswers (gameState (deliver mg (AnswerSubmit a now))) ! i) \<noteq> None)
       \<and> (userAnswer (userAnswers (gameState (deliver mg (AnswerSubmit a now))) ! i) = None
           \<longrightarrow> userAnswers (gameState (deliver mg (AnswerSubmit a now))) ! i =
                userAnswers (gameState mg) ! i)"
proof -
  let ?ua = "userAnswers (gameState mg)"
  from submit_userAnswers [of a now mg] show ?thesis
  proof
    assume "userAnswers (gameState (snd (handleAnswerSubmit a now mg))) = ?ua"
    then show ?thesis by simp
  next
    assume "\<exists>t v c. canAnswerQuestionId (gameState mg) = Some t \<and>
      (case find (\<lambda>r. questionId r = t) ?ua of None \<Rightarrow> True | Some r \<Rightarrow> userAnswer r = None) \<and>
      userAnswers (gameState (snd (handleAnswerSubmit a now mg))) =
        map (\<lambda>answer. if questionId answer = t
                       then answer\<lparr>userAnswer := Some v, isCorrect := Some c,
                                   answeredAt := Some now\<rparr>
                       else answer) ?ua"
    then obtain t v c where t: "canAnswerQuestionId (gameState mg) = Some t"
      and g: "case find (\<lambda>r. questionId r = t) ?ua of None \<Rightarrow> True | Some r \<Rightarrow> userAnswer r = None"
      and u: "userAnswers (gameState (snd (handleAnswerSubmit a now mg))) =
        map (\<lambda>answer. if questionId answer = t
                       then answer\<lparr>userAnswer := Some v, isCorrect := Some c,
                                   answeredAt := Some now\<rparr>
                       else answer) ?ua"
      by blast
    have k: "userAnswer (?ua ! i) = None" if "questionId (?ua ! i) = t"
      using find_by_key [OF assms(2) assms(1)] g that by simp
    from u t assms(1) k show ?thesis by (auto simp: nth_stamp)
  qed
qed

lemma advance_stamps:
  assumes "shape k mg" and "5 \<le> k" and "k < 34"
  shows "userAnswers (gameState (deliver mg (PeriodEnd now))) =
     map (\<lambda>answer. if questionId answer = k - 4 then answer\<lparr>answeredAt := Some now\<rparr> else answer)
         (userAnswers (gameState mg))"
  using assms
  by (auto simp add: shape_def periodBoundary_def advance_def Let_def truthy_def min_def)

lemma late_boundary_keeps:
  assumes "shape k mg" and "34 \<le> k"
  shows "userAnswers (gameState (deliver mg (PeriodEnd now))) = userAnswers (gameState mg)"
  using assms by (auto simp add: shape_def periodBoundary_def)

lemma early_boundary_keeps:
  assumes "shape k mg" and "k < 5"
  shows "userAnswers (gameState (deliver mg (PeriodEnd now))) = userAnswers (gameState mg)"
  using assms
  by (auto simp add: shape_def periodBoundary_def advance_def Let_def truthy_def)

lemma session_length: "length (userAnswers (gameState (run (started rng t0) evs))) = 30"
  using session_ids [of rng t0 evs] numbered_length by blast

lemma session_questionId:
  "i < 30 \<Longrightarrow> questionId (userAnswers (gameState (run (started rng t0) evs)) ! i) = Suc i"
  using session_ids [of rng t0 evs] numbered_nth by blast

lemma session_distinct:
  "distinct (map questionId (userAnswers (gameState (run (started rng t0) evs))))"
  using session_ids [of rng t0 evs] by (simp only: distinct_upt)

lemma started_open:
  "i < 30 \<Longrightarrow> userAnswers (gameState (started rng t0)) ! i = openAnswer (Suc i)"
proof -
  assume i: "i < 30"
  have "map openAnswer [1..<31] ! i = openAnswer ([1..<31] ! i)"
    using i by (intro nth_map) simp
  also have "[1..<31] ! i = 1 + i" using i by (intro nth_upt) simp
  finally show ?thesis using started_records [of rng t0] by simp
qed

lemma windowAt_mono: "windowAt k \<le> windowAt (Suc k)"
  by (auto simp: windowAt_def)

lemma shape_window:
  "shape k mg \<Longrightarrow> canAnswerQuestionId (gameState mg) = (if k < 5 then None else Some (windowAt k))"
  by (simp add: shape_def windowAt_def)

lemma window_before:
  "k < 34 \<Longrightarrow> 5 \<le> k \<Longrightarrow> windowAt (Suc k) \<le> Suc i \<Longrightarrow> windowAt k \<noteq> Suc i"
  by (simp add: windowAt_def)

lemma untouched_boundary_step:
  assumes s: "shape k mg" and l: "i < length (userAnswers (gameState mg))"
    and q: "questionId (userAnswers (gameState mg) ! i) = Suc i"
    and w: "windowAt (Suc k) \<le> Suc i"
  shows "userAnswers (gameState (deliver mg (PeriodEnd now))) ! i =
         userAnswers (gameState mg) ! i"
proof (cases "34 \<le> k")
  case True
  with late_boundary_keeps [OF s] show ?thesis by simp
next
  case False
  have c: "canAnswerQuestionId (gameState mg) = (if k < 5 then None else Some (windowAt k))"
    by (rule shape_window [OF s])
  have "Some (questionId (userAnswers (gameState mg) ! i)) \<noteq> canAnswerQuestionId (gameState mg)"
  proof (cases "k < 5")
    case True
    with c show ?thesis by simp
  next
    case k5: False
    with False w have "windowAt k \<noteq> Suc i" by (intro window_before) simp_all
    with c k5 q show ?thesis by simp
  qed
  with boundary_record [OF l, of now] show ?thesis by blast
qed

lemma session_untouched:
  "i < 30 \<Longrightarrow> windowAt (periodsEnded evs) \<le> Suc i \<Longrightarrow>
   userAnswer (userAnswers (gameState (run (started rng t0) evs)) ! i) = None \<Longrightarrow>
   userAnswers (gameState (run (started rng t0) evs)) ! i = openAnswer (Suc i)"
proof (induction evs rule: rev_induct)
  case Nil
  have "run (started rng t0) [] = started rng t0" by (simp add: run_def)
  with started_open [OF Nil(1), of rng t0] show ?case by (simp only:)
next
  case (snoc ev evs)
  let ?mg = "run (started rng t0) evs"
  let ?k = "periodsEnded evs"
  have s: "shape ?k ?mg" by (rule shape_session)
  have l: "i < length (userAnswers (gameState ?mg))"
    using snoc.prems(1) by (simp only: session_length)
  have q: "questionId (userAnswers (gameState ?mg) ! i) = Suc i"
    by (rule session_questionId [OF snoc.prems(1)])
  have r: "run (started rng t0) (evs @ [ev]) = deliver ?mg ev" by (rule run_snoc)
  from snoc.prems(3) have n': "userAnswer (userAnswers (gameState (deliver ?mg ev)) ! i) = None"
    by (simp only: r)
  show ?case
  proof (cases ev)
    case (PeriodEnd now)
    then have k': "periodsEnded (evs @ [ev]) = Suc ?k" by (simp add: periodsEnded_snoc)
    with snoc.prems(2) have w': "windowAt (Suc ?k) \<le> Suc i" by (simp only:)
    with windowAt_mono [of ?k] have w: "windowAt ?k \<le> Suc i" by (rule order_trans)
    have e: "userAnswers (gameState (deliver ?mg (PeriodEnd now))) ! i =
        userAnswers (gameState ?mg) ! i"
      by (rule untouched_boundary_step [OF s l q w'])
    with n' PeriodEnd have n: "userAnswer (userAnswers (gameState ?mg) ! i) = None"
      by (simp only:)
    from snoc.IH [OF snoc.prems(1) w n] e show ?thesis by (simp only: PeriodEnd run_snoc)
  next
    case (AnswerSubmit a now)
    then have k': "periodsEnded (evs @ [ev]) = ?k" by (simp add: periodsEnded_snoc)
    with snoc.prems(2) have w: "windowAt ?k \<le> Suc i" by (simp only:)
    from n' AnswerSubmit
    have "userAnswer (userAnswers (gameState (deliver ?mg (AnswerSubmit a now))) ! i) = None"
      by (simp only:)
    with submit_record [OF l session_distinct, of a now]
    have e: "userAnswers (gameState (deliver ?mg (AnswerSubmit a now))) ! i =
        userAnswers (gameState ?mg) ! i"
      by blast
    with n' AnswerSubmit have n: "userAnswer (userAnswers (gameState ?mg) ! i) = None"
      by (simp only:)
    from snoc.IH [OF snoc.prems(1) w n] e show ?thesis by (simp only: AnswerSubmit run_snoc)
  qed
qed

lemma silent_no_answers:
  "list_all isPeriodEnd evs \<Longrightarrow> i < 30 \<Longrightarrow>
   userAnswer (userAnswers (gameState (run (started rng t0) evs)) ! i) = None"
proof (induction evs rule: rev_induct)
  case Nil
  then show ?case by (simp add: run_def started_open openAnswer_def)
next
  case (snoc ev evs)
  from snoc.prems(1) obtain now where ev: "ev = PeriodEnd now" by (cases ev) auto
  have l: "i < length (userAnswers (gameState (run (started rng t0) evs)))"
    using snoc.prems(2) by (simp add: session_length)
  from snoc boundary_record [OF l, of now] ev show ?case by (simp add: run_snoc)
qed

lemma boundary_keeps_active:
  "\<not> finalEndPendingRef mg \<Longrightarrow>
   isGameActive (gameState (deliver mg (PeriodEnd now))) = isGameActive (gameState mg)"
  by (simp add: periodBoundary_def advance_def Let_def)

lemma silent_active:
  "list_all isPeriodEnd evs \<Longrightarrow> periodsEnded evs \<le> 34 \<Longrightarrow>
   isGameActive (gameState (run (started rng t0) evs))"
proof (induction evs rule: rev_induct)
  case Nil
  show ?case
    by (simp add: run_def started_def startDelayElapsed_def startCountdown_def startGame_def
        mounted_def split: prod.splits)
next
  case (snoc ev evs)
  from snoc.prems(1) obtain now where ev: "ev = PeriodEnd now" by (cases ev) auto
  with snoc.prems(2) have k: "periodsEnded evs < 34" by (simp add: periodsEnded_snoc)
  with shape_session [of evs rng t0] have "\<not> finalEndPendingRef (run (started rng t0) evs)"
    by (simp add: shape_def)
  from boundary_keeps_active [OF this, of now] snoc k ev show ?case by (simp add: run_snoc)
qed

lemma periodEnds_Suc: "periodEnds (Suc n) = periodEnds n @ [PeriodEnd (1000 + 3000 * Suc n)]"
  by (simp add: periodEnds_def)

lemma periodEnds_silent: "list_all isPeriodEnd (periodEnds n)"
  by (simp add: periodEnds_def list_all_iff)

lemma periodEnds_count: "periodsEnded (periodEnds n) = n"
  by (induction n) (simp_all add: periodEnds_Suc periodsEnded_snoc, simp add: periodEnds_def periodsEnded_def)


lemma submit_taken:
  assumes "canAnswerQuestionId (gameState mg) = Some t" and "t \<noteq> 0"
    and "case find (\<lambda>r. questionId r = t) (userAnswers (gameState mg)) of
           None \<Rightarrow> True | Some r \<Rightarrow> userAnswer r = None"
    and "parseInt a = Some v"
    and "find (\<lambda>q. id_q q = t) (questions (gameState mg)) = Some q"
  shows "handleAnswerSubmit a now mg =
        (Answered (v = correctAnswer q),
         mg\<lparr>gameState :=
           (if t = TOTAL_QUESTIONS \<and> answerCounter (gameState mg) \<ge> TOTAL_QUESTIONS
            then (gameState mg)
                   \<lparr>userAnswers :=
                      map (\<lambda>answer. if questionId answer = t
                                     then answer\<lparr>userAnswer := Some v,
                                                 isCorrect := Some (v = correctAnswer q),
                                                 answeredAt := Some now\<rparr>
                                     else answer)
                          (userAnswers (gameState mg)),
                    score := (if v = correctAnswer q then score (gameState mg) + 1
                              else score (gameState mg)),
                    isGameActive := False, gameEndTime := Some now\<rparr>
            else (gameState mg)
                   \<lparr>userAnswers :=
                      map (\<lambda>answer. if questionId answer = t
                                     then answer\<lparr>userAnswer := Some v,
                                                 isCorrect := Some (v = correctAnswer q),
                                                 answeredAt := Some now\<rparr>
                                     else answer)
                          (userAnswers (gameState mg)),
                    score := (if v = correctAnswer q then score (gameState mg) + 1
                              else score (gameState mg))\<rparr>)\<rparr>)"
proof (cases rule: submit_cases [of a now mg])
  case (unchanged x)
  from assms(4) have "trim a \<noteq> []" using parseInt_blank [of a] by auto
  with assms have "fst (handleAnswerSubmit a now mg) = Answered (v = correctAnswer q)"
    by (auto simp: handleAnswerSubmit_def Let_def split: option.splits)
  with unchanged show ?thesis by simp
next
  case (answered t' v' q')
  with assms show ?thesis by simp
qed

lemma foldl_slot_prefix:
  "\<exists>ext. fst (foldl (slot rng) (qs, as, pos) is) = qs @ ext"
proof (induction "is" arbitrary: qs as pos)
  case Nil
  show ?case by simp
next
  case (Cons i "is")
  obtain q p where d: "drawLoop rng i qs 0 pos = (q, p)" by (cases "drawLoop rng i qs 0 pos")
  have "foldl (slot rng) (qs, as, pos) (i # is) =
      foldl (slot rng) (qs @ [q], as @ [openAnswer i], p) is"
    by (simp only: foldl_Cons slot_step [OF d])
  with Cons [of "qs @ [q]" "as @ [openAnswer i]" p] show ?case by auto
qed

lemma first_question:
  "questions (gameState (run (started rng t0) evs)) ! 0 = generateQuestion 1 (rng 0)"
proof -
  have d: "drawLoop rng 1 [] 0 0 = (generateQuestion 1 (rng 0), Suc 0)"
    by (subst drawLoop.simps) simp
  have "[1..<Suc 30] = 1 # [2..<Suc 30]" by (simp add: upt_conv_Cons)
  then have "generateAll rng =
      foldl (slot rng) ([] @ [generateQuestion 1 (rng 0)], [] @ [openAnswer 1], Suc 0) [2..<Suc 30]"
    by (simp only: generateAll_def foldl_Cons slot_step [OF d])
  moreover obtain ext where
    "fst (foldl (slot rng) ([] @ [generateQuestion 1 (rng 0)], [] @ [openAnswer 1], Suc 0)
       [2..<Suc 30]) = ([] @ [generateQuestion 1 (rng 0)]) @ ext"
    using foldl_slot_prefix by blast
  ultimately have g: "fst (generateAll rng) ! 0 = generateQuestion 1 (rng 0)" by simp
  have "questions (gameState (started rng t0)) = fst (generateAll rng)"
    by (cases "generateAll rng")
       (simp add: started_def startDelayElapsed_def startCountdown_def startGame_def mounted_def)
  with g run_ids [of "started rng t0" evs] show ?thesis by simp
qed

lemma window_index:
  "5 \<le> k \<Longrightarrow> k \<le> 34 \<Longrightarrow> k - 5 < 30 \<and> Suc (k - 5) = k - 4 \<and> windowAt k = Suc (k - 5)"
  by (auto simp: windowAt_def)

text \<open>A submission for the question in the window, while its record holds no answer.\<close>

lemma eligible_submit:
  assumes k5: "5 \<le> periodsEnded evs" and k34: "periodsEnded evs \<le> 34"
    and opn: "userAnswer (userAnswers (gameState (run (started rng t0) evs)) !
                (periodsEnded evs - 5)) = None"
    and p: "parseInt a = Some v"
  shows "userAnswers (gameState (run (started rng t0) (evs @ [AnswerSubmit a now]))) !
           (periodsEnded evs - 5) =
         \<lparr>questionId = periodsEnded evs - 4, userAnswer = Some v,
          isCorrect = Some (v = correctAnswer
            (questions (gameState (run (started rng t0) evs)) ! (periodsEnded evs - 5))),
          answeredAt = Some now\<rparr>"
    and "score (gameState (run (started rng t0) (evs @ [AnswerSubmit a now]))) =
         (if v = correctAnswer
            (questions (gameState (run (started rng t0) evs)) ! (periodsEnded evs - 5))
          then score (gameState (run (started rng t0) evs)) + 1
          else score (gameState (run (started rng t0) evs)))"
    and "periodsEnded evs = 34 \<Longrightarrow>
         \<not> isGameActive (gameState (run (started rng t0) (evs @ [AnswerSubmit a now]))) \<and>
         gameEndTime (gameState (run (started rng t0) (evs @ [AnswerSubmit a now]))) = Some now"
proof -
  let ?mg = "run (started rng t0) evs"
  let ?k = "periodsEnded evs"
  let ?i = "?k - 5"
  let ?ua = "userAnswers (gameState ?mg)"
  let ?qs = "questions (gameState ?mg)"
  let ?c = "v = correctAnswer (?qs ! ?i)"
  let ?f = "\<lambda>answer. if questionId answer = Suc ?i
              then answer\<lparr>userAnswer := Some v, isCorrect := Some ?c, answeredAt := Some now\<rparr>
              else answer"
  have s: "shape ?k ?mg" by (rule shape_session)
  from window_index [OF k5 k34]
  have i: "?i < 30" and t: "Suc ?i = ?k - 4" and w: "windowAt ?k = Suc ?i" by simp_all
  have can: "canAnswerQuestionId (gameState ?mg) = Some (Suc ?i)"
    using shape_window [OF s] k5 w by simp
  have ac: "?k = 34 \<Longrightarrow> answerCounter (gameState ?mg) = 30"
    using s by (simp add: shape_def)
  have ac': "?k < 34 \<Longrightarrow> Suc ?i \<noteq> 30" using k5 by simp
  have fr: "find (\<lambda>r. questionId r = Suc ?i) ?ua = Some (?ua ! ?i)"
    using session_ids [of rng t0 evs] i by (intro find_numbered) simp_all
  have fq: "find (\<lambda>q. id_q q = Suc ?i) ?qs = Some (?qs ! ?i)"
    using session_ids [of rng t0 evs] i by (intro find_numbered) simp_all
  have g: "case find (\<lambda>r. questionId r = Suc ?i) ?ua of
             None \<Rightarrow> True | Some r \<Rightarrow> userAnswer r = None"
    by (simp add: fr opn)
  note H = submit_taken [OF can _ g p fq, of now, simplified]
  have r: "run (started rng t0) (evs @ [AnswerSubmit a now]) =
      snd (handleAnswerSubmit a now ?mg)"
    by (simp add: run_snoc)
  have u: "userAnswers (gameState (snd (handleAnswerSubmit a now ?mg))) = map ?f ?ua"
    by (simp add: H)
  have o: "?ua ! ?i = openAnswer (Suc ?i)"
    using session_untouched [OF i _ opn] w by simp
  have l: "?i < length ?ua" using i by (simp add: session_length)
  have "map ?f ?ua ! ?i = ?f (?ua ! ?i)" using l by (rule nth_map)
  also have "\<dots> = \<lparr>questionId = ?k - 4, userAnswer = Some v, isCorrect = Some ?c,
      answeredAt = Some now\<rparr>"
    by (simp add: o openAnswer_def t)
  finally show "userAnswers (gameState (run (started rng t0) (evs @ [AnswerSubmit a now]))) ! ?i =
      \<lparr>questionId = ?k - 4, userAnswer = Some v, isCorrect = Some ?c, answeredAt = Some now\<rparr>"
    by (simp only: r u)
  show "score (gameState (run (started rng t0) (evs @ [AnswerSubmit a now]))) =
      (if ?c then score (gameState ?mg) + 1 else score (gameState ?mg))"
    unfolding r by (simp add: H)
  show "\<not> isGameActive (gameState (run (started rng t0) (evs @ [AnswerSubmit a now]))) \<and>
      gameEndTime (gameState (run (started rng t0) (evs @ [AnswerSubmit a now]))) = Some now"
    if "?k = 34"
    unfolding r using that ac by (simp add: H)
qed

text \<open>The end of a period while the window is on a question: its record is stamped.\<close>

lemma restamp:
  assumes "5 \<le> periodsEnded evs" and "periodsEnded evs < 34"
  shows "userAnswers (gameState (run (started rng t0) (evs @ [PeriodEnd now]))) !
           (periodsEnded evs - 5) =
         (userAnswers (gameState (run (started rng t0) evs)) ! (periodsEnded evs - 5))
           \<lparr>answeredAt := Some now\<rparr>"
proof -
  let ?mg = "run (started rng t0) evs"
  let ?k = "periodsEnded evs"
  let ?i = "?k - 5"
  from assms have i: "?i < 30" and t: "Suc ?i = ?k - 4" by simp_all
  have l: "?i < length (userAnswers (gameState ?mg))" using i by (simp add: session_length)
  have q: "questionId (userAnswers (gameState ?mg) ! ?i) = ?k - 4"
    using session_questionId [OF i, of rng t0 evs] t by simp
  show ?thesis
    unfolding run_snoc advance_stamps [OF shape_session assms]
    using l q by simp
qed

lemma final_boundary:
  assumes "periodsEnded evs = 34"
  shows "\<not> isGameActive (gameState (run (started rng t0) (evs @ [PeriodEnd now])))"
    and "gameEndTime (gameState (run (started rng t0) (evs @ [PeriodEnd now]))) = Some now"
    and "userAnswers (gameState (run (started rng t0) (evs @ [PeriodEnd now]))) =
         userAnswers (gameState (run (started rng t0) evs))"
  using shape_session [of evs rng t0] assms
  by (simp_all add: run_snoc shape_def periodBoundary_def)

lemma demo_first: "generateQuestion 1 (demoRng 0) =
    \<lparr>id_q = 1, num1 = 3, num2 = 4, operator = Plus, correctAnswer = 7,
     questionText = ''3 + 4 = ?''\<rparr>"
  by (simp add: generateQuestion_def demoRng_def showNat.simps digitChar_def showOperator_def)

lemma parse_examples:
  "parseInt ''7'' = Some 7" "parseInt ''6'' = Some 6" "parseInt ''abc'' = None"
  "trim ''abc'' \<noteq> []"
  by (simp_all add: parseInt_def trim_def isWhiteSpace_def isRadixDigit_def digitValue_def)

text \<open>
  Claim C1, evaluated where the code departs from it. Nothing is submitted. After the
  34th period end the answer counter is 30, question 30 may be answered and the final
  wait is pending; the 35th period end, at 106000 ms, ends the game and sets the end
  time, as the claim says. But the record of question 30 is then exactly as \<^verbatim>\<open>startGame\<close>
  made it, its \<open>answeredAt\<close> still \<^verbatim>\<open>null\<close>: the ending path writes no record. The
  record of question 29, which the 34th period end passed over, did get its time.
\<close>

theorem C1_timeout_leaves_last_record_open:
  "isGameActive (gameState (run (started demoRng 1000) (periodEnds 34)))
   \<and> finalEndPendingRef (run (started demoRng 1000) (periodEnds 34))
   \<and> answerCounter (gameState (run (started demoRng 1000) (periodEnds 34))) = 30
   \<and> canAnswerQuestionId (gameState (run (started demoRng 1000) (periodEnds 34))) = Some 30
   \<and> \<not> isGameActive (gameState (run (started demoRng 1000) (periodEnds 35)))
   \<and> gameEndTime (gameState (run (started demoRng 1000) (periodEnds 35))) = Some 106000
   \<and> userAnswers (gameState (run (started demoRng 1000) (periodEnds 35))) ! 28 =
       \<lparr>questionId = 29, userAnswer = None, isCorrect = None, answeredAt = Some 103000\<rparr>
   \<and> userAnswers (gameState (run (started demoRng 1000) (periodEnds 35))) ! 29 =
       \<lparr>questionId = 30, userAnswer = None, isCorrect = None, answeredAt = None\<rparr>"
proof -
  let ?s = "started demoRng 1000"
  have a: "isGameActive (gameState (run ?s (periodEnds 34)))"
    by (rule silent_active) (simp_all add: periodEnds_silent periodEnds_count)
  have s: "shape 34 (run ?s (periodEnds 34))"
    using shape_session [of "periodEnds 34" demoRng 1000] by (simp add: periodEnds_count)
  then have b: "finalEndPendingRef (run ?s (periodEnds 34))
      \<and> answerCounter (gameState (run ?s (periodEnds 34))) = 30
      \<and> canAnswerQuestionId (gameState (run ?s (periodEnds 34))) = Some 30"
    by (simp add: shape_def)
  have e35: "periodEnds 35 = periodEnds 34 @ [PeriodEnd 106000]"
    using periodEnds_Suc [of 34] by simp
  have e34: "periodEnds 34 = periodEnds 33 @ [PeriodEnd 103000]"
    using periodEnds_Suc [of 33] by simp
  have c: "\<not> isGameActive (gameState (run ?s (periodEnds 35)))
      \<and> gameEndTime (gameState (run ?s (periodEnds 35))) = Some 106000"
    unfolding e35 using final_boundary(1,2) [of "periodEnds 34" demoRng 1000 106000]
    by (simp add: periodEnds_count)
  have u: "userAnswers (gameState (run ?s (periodEnds 35))) =
      userAnswers (gameState (run ?s (periodEnds 34)))"
    unfolding e35 by (rule final_boundary(3)) (simp add: periodEnds_count)
  have "userAnswers (gameState (run ?s (periodEnds 33))) ! 28 = openAnswer (Suc 28)"
    by (rule session_untouched)
       (simp_all add: periodEnds_count windowAt_def silent_no_answers periodEnds_silent)
  with restamp [of "periodEnds 33" demoRng 1000 103000]
  have d: "userAnswers (gameState (run ?s (periodEnds 34))) ! 28 =
      \<lparr>questionId = 29, userAnswer = None, isCorrect = None, answeredAt = Some 103000\<rparr>"
    by (simp add: periodEnds_count e34 openAnswer_def)
  have "userAnswers (gameState (run ?s (periodEnds 35))) ! 29 = openAnswer (Suc 29)"
    by (rule session_untouched)
       (simp_all add: periodEnds_count windowAt_def silent_no_answers periodEnds_silent)
  then have f: "userAnswers (gameState (run ?s (periodEnds 35))) ! 29 =
      \<lparr>questionId = 30, userAnswer = None, isCorrect = None, answeredAt = None\<rparr>"
    by (simp add: openAnswer_def)
  from a b c d f u show ?thesis by simp
qed

text \<open>
  Claim C2, evaluated where the code departs from it. With the final wait pending,
  question 30 is answered at 104000 ms: the game is ended on the spot with end time
  104000, as the claim says. But the submission neither clears the pending flag nor
  stops the interval, and the ending path of the next period end does not look at
  \<open>isGameActive\<close>: at 106000 ms it runs all the same and replaces the end time by
  106000.
\<close>

theorem C2_timeout_overwrites_end_time:
  "isGameActive (gameState (run (started demoRng 1000) (periodEnds 34)))
   \<and> finalEndPendingRef (run (started demoRng 1000) (periodEnds 34))
   \<and> answerCounter (gameState (run (started demoRng 1000) (periodEnds 34))) = 30
   \<and> canAnswerQuestionId (gameState (run (started demoRng 1000) (periodEnds 34))) = Some 30
   \<and> userAnswer (userAnswers (gameState
        (run (started demoRng 1000) (periodEnds 34 @ [AnswerSubmit ''6'' 104000]))) ! 29) = Some 6
   \<and> \<not> isGameActive (gameState
        (run (started demoRng 1000) (periodEnds 34 @ [AnswerSubmit ''6'' 104000])))
   \<and> gameEndTime (gameState
        (run (started demoRng 1000) (periodEnds 34 @ [AnswerSubmit ''6'' 104000]))) = Some 104000
   \<and> finalEndPendingRef
        (run (started demoRng 1000) (periodEnds 34 @ [AnswerSubmit ''6'' 104000]))
   \<and> countdownRef
        (run (started demoRng 1000) (periodEnds 34 @ [AnswerSubmit ''6'' 104000]))
   \<and> gameEndTime (gameState
        (run (started demoRng 1000)
           (periodEnds 34 @ [AnswerSubmit ''6'' 104000, PeriodEnd 106000]))) = Some 106000"
proof -
  let ?s = "started demoRng 1000"
  let ?sub = "periodEnds 34 @ [AnswerSubmit ''6'' 104000]"
  have a: "isGameActive (gameState (run ?s (periodEnds 34)))"
    by (rule silent_active) (simp_all add: periodEnds_silent periodEnds_count)
  have s: "shape 34 (run ?s (periodEnds 34))"
    using shape_session [of "periodEnds 34" demoRng 1000] by (simp add: periodEnds_count)
  then have b: "finalEndPendingRef (run ?s (periodEnds 34))
      \<and> answerCounter (gameState (run ?s (periodEnds 34))) = 30
      \<and> canAnswerQuestionId (gameState (run ?s (periodEnds 34))) = Some 30"
    by (simp add: shape_def)
  have n: "userAnswer (userAnswers (gameState (run ?s (periodEnds 34))) !
      (periodsEnded (periodEnds 34) - 5)) = None"
    by (rule silent_no_answers) (simp_all add: periodEnds_silent periodEnds_count)
  have k: "5 \<le> periodsEnded (periodEnds 34)" "periodsEnded (periodEnds 34) \<le> 34"
    by (simp_all add: periodEnds_count)
  note E = eligible_submit [OF k n parse_examples(2), of 104000]
  have c: "userAnswer (userAnswers (gameState (run ?s ?sub)) ! 29) = Some 6"
    using E(1) by (simp add: periodEnds_count)
  have d: "\<not> isGameActive (gameState (run ?s ?sub))
      \<and> gameEndTime (gameState (run ?s ?sub)) = Some 104000"
    using E(3) by (simp add: periodEnds_count)
  have s': "shape 34 (run ?s ?sub)"
    using shape_session [of ?sub demoRng 1000]
    by (simp add: periodsEnded_snoc periodEnds_count)
  then have e: "finalEndPendingRef (run ?s ?sub) \<and> countdownRef (run ?s ?sub)"
    by (simp add: shape_def)
  have "periodEnds 34 @ [AnswerSubmit ''6'' 104000, PeriodEnd 106000] = ?sub @ [PeriodEnd 106000]"
    by simp
  then have f: "gameEndTime (gameState (run ?s
      (periodEnds 34 @ [AnswerSubmit ''6'' 104000, PeriodEnd 106000]))) = Some 106000"
    using final_boundary(2) [of ?sub demoRng 1000 106000]
    by (simp add: periodsEnded_snoc periodEnds_count)
  from a b c d e f show ?thesis by simp
qed

text \<open>
  The session of the concrete source in which question 1 is answered with \<open>7\<close> at
  17000 ms, in the first window, and the period then ends at 19000 ms.
\<close>

lemma demo_window:
  "isGameActive (gameState (run (started demoRng 1000) (periodEnds 5)))"
  "canAnswerQuestionId (gameState (run (started demoRng 1000) (periodEnds 5))) = Some 1"
  "userAnswers (gameState (run (started demoRng 1000) (periodEnds 5))) ! 0 = openAnswer 1"
  "questions (gameState (run (started demoRng 1000) (periodEnds 5))) ! 0 =
     \<lparr>id_q = 1, num1 = 3, num2 = 4, operator = Plus, correctAnswer = 7,
      questionText = ''3 + 4 = ?''\<rparr>"
  "find (\<lambda>a. questionId a = 1) (userAnswers (gameState (run (started demoRng 1000) (periodEnds 5))))
     = Some (openAnswer 1)"
  "find (\<lambda>q. id_q q = 1) (questions (gameState (run (started demoRng 1000) (periodEnds 5))))
     = Some \<lparr>id_q = 1, num1 = 3, num2 = 4, operator = Plus, correctAnswer = 7,
             questionText = ''3 + 4 = ?''\<rparr>"
proof -
  let ?m = "run (started demoRng 1000) (periodEnds 5)"
  show "isGameActive (gameState ?m)"
    by (rule silent_active) (simp_all add: periodEnds_silent periodEnds_count)
  show "canAnswerQuestionId (gameState ?m) = Some 1"
    using shape_session [of "periodEnds 5" demoRng 1000]
    by (simp add: periodEnds_count shape_def)
  have "userAnswers (gameState ?m) ! 0 = openAnswer (Suc 0)"
    by (rule session_untouched)
       (simp_all add: periodEnds_count windowAt_def silent_no_answers periodEnds_silent)
  then show o: "userAnswers (gameState ?m) ! 0 = openAnswer 1" by simp
  show q: "questions (gameState ?m) ! 0 =
     \<lparr>id_q = 1, num1 = 3, num2 = 4, operator = Plus, correctAnswer = 7,
      questionText = ''3 + 4 = ?''\<rparr>"
    by (simp only: first_question demo_first)
  have "find (\<lambda>a. questionId a = Suc 0) (userAnswers (gameState ?m)) =
      Some (userAnswers (gameState ?m) ! 0)"
    using session_ids [of demoRng 1000 "periodEnds 5"] by (intro find_numbered) simp_all
  with o show "find (\<lambda>a. questionId a = 1) (userAnswers (gameState ?m)) = Some (openAnswer 1)"
    by simp
  have "find (\<lambda>q. id_q q = Suc 0) (questions (gameState ?m)) =
      Some (questions (gameState ?m) ! 0)"
    using session_ids [of demoRng 1000 "periodEnds 5"] by (intro find_numbered) simp_all
  with q show "find (\<lambda>q. id_q q = 1) (questions (gameState ?m))
     = Some \<lparr>id_q = 1, num1 = 3, num2 = 4, operator = Plus, correctAnswer = 7,
             questionText = ''3 + 4 = ?''\<rparr>"
    by simp
qed

lemma demo_restamped:
  "userAnswers (gameState
     (run (started demoRng 1000) (periodEnds 5 @ [AnswerSubmit ''7'' 17000]))) ! 0 =
     \<lparr>questionId = 1, userAnswer = Some 7, isCorrect = Some True, answeredAt = Some 17000\<rparr>"
  "userAnswers (gameState
     (run (started demoRng 1000)
        (periodEnds 5 @ [AnswerSubmit ''7'' 17000, PeriodEnd 19000]))) ! 0 =
     \<lparr>questionId = 1, userAnswer = Some 7, isCorrect = Some True, answeredAt = Some 19000\<rparr>"
proof -
  let ?s = "started demoRng 1000"
  let ?sub = "periodEnds 5 @ [AnswerSubmit ''7'' 17000]"
  have n: "userAnswer (userAnswers (gameState (run ?s (periodEnds 5))) !
      (periodsEnded (periodEnds 5) - 5)) = None"
    by (rule silent_no_answers) (simp_all add: periodEnds_silent periodEnds_count)
  have k: "5 \<le> periodsEnded (periodEnds 5)" "periodsEnded (periodEnds 5) \<le> 34"
    by (simp_all add: periodEnds_count)
  from eligible_submit(1) [OF k n parse_examples(1), of 17000]
  show a: "userAnswers (gameState (run ?s ?sub)) ! 0 =
     \<lparr>questionId = 1, userAnswer = Some 7, isCorrect = Some True, answeredAt = Some 17000\<rparr>"
    by (simp add: periodEnds_count demo_window(4))
  have e: "run ?s (periodEnds 5 @ [AnswerSubmit ''7'' 17000, PeriodEnd 19000]) =
      run ?s (?sub @ [PeriodEnd 19000])"
    by simp
  have "userAnswers (gameState (run ?s (?sub @ [PeriodEnd 19000]))) ! (periodsEnded ?sub - 5) =
      (userAnswers (gameState (run ?s ?sub)) ! (periodsEnded ?sub - 5))\<lparr>answeredAt := Some 19000\<rparr>"
    by (rule restamp) (simp_all add: periodsEnded_snoc periodEnds_count)
  moreover have "periodsEnded ?sub - 5 = 0" by (simp add: periodsEnded_snoc periodEnds_count)
  ultimately have "userAnswers (gameState (run ?s (?sub @ [PeriodEnd 19000]))) ! 0 =
      (userAnswers (gameState (run ?s ?sub)) ! 0)\<lparr>answeredAt := Some 19000\<rparr>"
    by (simp only:)
  then show "userAnswers (gameState
     (run ?s (periodEnds 5 @ [AnswerSubmit ''7'' 17000, PeriodEnd 19000]))) ! 0 =
     \<lparr>questionId = 1, userAnswer = Some 7, isCorrect = Some True, answeredAt = Some 19000\<rparr>"
    unfolding e a by simp
qed

text \<open>
  Counterexample to claim C3 as stated. Question 1 is answered at 17000 ms: its record is
  resolved with \<open>answeredAt = 17000\<close>. The period ends at 19000 ms and the pass that
  moves the window writes \<open>answeredAt = 19000\<close> into the same record, although it was
  not open any more.
\<close>

theorem C3_counterexample:
  "answeredAt (userAnswers (gameState
     (run (started demoRng 1000) (periodEnds 5 @ [AnswerSubmit ''7'' 17000]))) ! 0) = Some 17000
   \<and> userAnswer (userAnswers (gameState
     (run (started demoRng 1000) (periodEnds 5 @ [AnswerSubmit ''7'' 17000]))) ! 0) = Some 7
   \<and> answeredAt (userAnswers (gameState
     (run (started demoRng 1000)
        (periodEnds 5 @ [AnswerSubmit ''7'' 17000, PeriodEnd 19000]))) ! 0) = Some 19000"
  by (simp add: demo_restamped)

text \<open>
  The end of a period leaves every record but the one of the question in the window as it
  is; up to the 5th period end and from the 35th on it leaves all of them.
\<close>

lemma boundary_outside_window:
  assumes i: "i < 30"
    and o: "i \<noteq> periodsEnded evs - 5 \<or> periodsEnded evs < 5 \<or> 34 \<le> periodsEnded evs"
  shows "userAnswers (gameState (run (started rng t0) (evs @ [PeriodEnd now]))) ! i =
         userAnswers (gameState (run (started rng t0) evs)) ! i"
proof -
  let ?mg = "run (started rng t0) evs"
  let ?k = "periodsEnded evs"
  have s: "shape ?k ?mg" by (rule shape_session)
  have l: "i < length (userAnswers (gameState ?mg))" using i by (simp add: session_length)
  have q: "questionId (userAnswers (gameState ?mg) ! i) = Suc i"
    by (rule session_questionId [OF i])
  have "userAnswers (gameState (deliver ?mg (PeriodEnd now))) ! i =
      userAnswers (gameState ?mg) ! i"
  proof (cases "?k < 5 \<or> 34 \<le> ?k")
    case True
    then show ?thesis
      using early_boundary_keeps [OF s, of now] late_boundary_keeps [OF s, of now] by auto
  next
    case False
    then have k: "5 \<le> ?k" "?k \<le> 34" by simp_all
    from False o have n: "i \<noteq> ?k - 5" by blast
    from window_index [OF k] have "windowAt ?k = Suc (?k - 5)" by simp
    with n have "windowAt ?k \<noteq> Suc i" by simp
    with shape_window [OF s] k q
    have "Some (questionId (userAnswers (gameState ?mg) ! i)) \<noteq>
        canAnswerQuestionId (gameState ?mg)"
      by simp
    with boundary_record [OF l, of now] show ?thesis by blast
  qed
  then show ?thesis by (simp only: run_snoc)
qed

text \<open>
  Claim C3, amended. In every session and at every event, whatever came before: a
  record that is resolved (its \<open>answeredAt\<close> is set) is never open again, so it goes
  from open to resolved at most once; the answer and the verdict a submission has
  written into a record are never changed again, by a later submission or by the end of
  a period; the end of a period changes no answer and no verdict of any record. The time
  \<open>answeredAt\<close> of a record is protected too, with one exception. A submission leaves
  a record that holds an answer entirely as it is, and the end of a period leaves every
  record entirely as it is except the record of the question in the window. That one
  record gets \<open>answeredAt\<close> set to the time of the period end by the pass that moves
  the window (from the 6th to the 34th period end), unconditionally, also when a
  submission has resolved it before.
\<close>

theorem C3_resolved_at_most_once:
  "length (userAnswers (gameState (run (started rng t0) evs))) = 30
   \<and> length (userAnswers (gameState (run (started rng t0) (evs @ [ev])))) = 30
   \<and> (\<forall>i<30.
        questionId (userAnswers (gameState (run (started rng t0) (evs @ [ev]))) ! i) =
          questionId (userAnswers (gameState (run (started rng t0) evs)) ! i)
        \<and> (answeredAt (userAnswers (gameState (run (started rng t0) evs)) ! i) \<noteq> None \<longrightarrow>
            answeredAt (userAnswers (gameState (run (started rng t0) (evs @ [ev]))) ! i) \<noteq> None)
        \<and> (userAnswer (userAnswers (gameState (run (started rng t0) evs)) ! i) \<noteq> None \<longrightarrow>
            userAnswer (userAnswers (gameState (run (started rng t0) (evs @ [ev]))) ! i) =
              userAnswer (userAnswers (gameState (run (started rng t0) evs)) ! i)
            \<and> isCorrect (userAnswers (gameState (run (started rng t0) (evs @ [ev]))) ! i) =
              isCorrect (userAnswers (gameState (run (started rng t0) evs)) ! i))
        \<and> (isPeriodEnd ev \<longrightarrow>
            userAnswer (userAnswers (gameState (run (started rng t0) (evs @ [ev]))) ! i) =
              userAnswer (userAnswers (gameState (run (started rng t0) evs)) ! i)
            \<and> isCorrect (userAnswers (gameState (run (started rng t0) (evs @ [ev]))) ! i) =
              isCorrect (userAnswers (gameState (run (started rng t0) evs)) ! i)))
   \<and> (5 \<le> periodsEnded evs \<and> periodsEnded evs < 34 \<longrightarrow>
        userAnswers (gameState (run (started rng t0) (evs @ [PeriodEnd now]))) !
           (periodsEnded evs - 5) =
         (userAnswers (gameState (run (started rng t0) evs)) ! (periodsEnded evs - 5))
           \<lparr>answeredAt := Some now\<rparr>)
   \<and> (\<forall>i<30.
        (isPeriodEnd ev \<and>
         (i \<noteq> periodsEnded evs - 5 \<or> periodsEnded evs < 5 \<or> 34 \<le> periodsEnded evs) \<longrightarrow>
           userAnswers (gameState (run (started rng t0) (evs @ [ev]))) ! i =
           userAnswers (gameState (run (started rng t0) evs)) ! i)
        \<and> (\<not> isPeriodEnd ev \<and>
            userAnswer (userAnswers (gameState (run (started rng t0) evs)) ! i) \<noteq> None \<longrightarrow>
           userAnswers (gameState (run (started rng t0) (evs @ [ev]))) ! i =
           userAnswers (gameState (run (started rng t0) evs)) ! i))"
proof -
  let ?ua = "userAnswers (gameState (run (started rng t0) evs))"
  let ?ua' = "userAnswers (gameState (run (started rng t0) (evs @ [ev])))"
  have per: "questionId (?ua' ! i) = questionId (?ua ! i)
        \<and> (answeredAt (?ua ! i) \<noteq> None \<longrightarrow> answeredAt (?ua' ! i) \<noteq> None)
        \<and> (userAnswer (?ua ! i) \<noteq> None \<longrightarrow>
            userAnswer (?ua' ! i) = userAnswer (?ua ! i) \<and> isCorrect (?ua' ! i) = isCorrect (?ua ! i))
        \<and> (isPeriodEnd ev \<longrightarrow>
            userAnswer (?ua' ! i) = userAnswer (?ua ! i) \<and> isCorrect (?ua' ! i) = isCorrect (?ua ! i))"
    if i: "i < 30" for i
  proof -
    have l: "i < length ?ua" using i by (simp add: session_length)
    have q: "questionId (?ua' ! i) = questionId (?ua ! i)"
      using i by (simp add: session_questionId)
    show ?thesis
    proof (cases ev)
      case (PeriodEnd t)
      have r: "run (started rng t0) (evs @ [ev]) =
          deliver (run (started rng t0) evs) (PeriodEnd t)"
        unfolding PeriodEnd by (rule run_snoc)
      from boundary_record [OF l, of t] q show ?thesis unfolding r by blast
    next
      case (AnswerSubmit a t)
      have r: "run (started rng t0) (evs @ [ev]) =
          deliver (run (started rng t0) evs) (AnswerSubmit a t)"
        unfolding AnswerSubmit by (rule run_snoc)
      have p: "\<not> isPeriodEnd ev" using AnswerSubmit by simp
      from submit_record [OF l session_distinct, of a t]
      have "answeredAt (?ua ! i) \<noteq> None \<longrightarrow>
          answeredAt (userAnswers (gameState
            (deliver (run (started rng t0) evs) (AnswerSubmit a t))) ! i) \<noteq> None"
        and "userAnswer (?ua ! i) \<noteq> None \<longrightarrow>
          userAnswers (gameState (deliver (run (started rng t0) evs) (AnswerSubmit a t))) ! i =
            ?ua ! i"
        by blast+
      with q p show ?thesis unfolding r by metis
    qed
  qed
  have st: "5 \<le> periodsEnded evs \<and> periodsEnded evs < 34 \<longrightarrow>
        userAnswers (gameState (run (started rng t0) (evs @ [PeriodEnd now]))) !
           (periodsEnded evs - 5) =
         (?ua ! (periodsEnded evs - 5))\<lparr>answeredAt := Some now\<rparr>"
    using restamp [of evs rng t0 now] by blast
  have "\<forall>i<30. questionId (?ua' ! i) = questionId (?ua ! i)
        \<and> (answeredAt (?ua ! i) \<noteq> None \<longrightarrow> answeredAt (?ua' ! i) \<noteq> None)
        \<and> (userAnswer (?ua ! i) \<noteq> None \<longrightarrow>
            userAnswer (?ua' ! i) = userAnswer (?ua ! i) \<and> isCorrect (?ua' ! i) = isCorrect (?ua ! i))
        \<and> (isPeriodEnd ev \<longrightarrow>
            userAnswer (?ua' ! i) = userAnswer (?ua ! i) \<and> isCorrect (?ua' ! i) = isCorrect (?ua ! i))"
    using per by (intro allI impI)
  moreover have "\<forall>i<30.
        (isPeriodEnd ev \<and>
         (i \<noteq> periodsEnded evs - 5 \<or> periodsEnded evs < 5 \<or> 34 \<le> periodsEnded evs) \<longrightarrow>
           ?ua' ! i = ?ua ! i)
        \<and> (\<not> isPeriodEnd ev \<and> userAnswer (?ua ! i) \<noteq> None \<longrightarrow> ?ua' ! i = ?ua ! i)"
  proof (intro allI impI)
    fix i :: nat
    assume i: "i < 30"
    have l: "i < length ?ua" using i by (simp add: session_length)
    show "(isPeriodEnd ev \<and>
         (i \<noteq> periodsEnded evs - 5 \<or> periodsEnded evs < 5 \<or> 34 \<le> periodsEnded evs) \<longrightarrow>
           ?ua' ! i = ?ua ! i)
        \<and> (\<not> isPeriodEnd ev \<and> userAnswer (?ua ! i) \<noteq> None \<longrightarrow> ?ua' ! i = ?ua ! i)"
    proof (cases ev)
      case (PeriodEnd t)
      with boundary_outside_window [OF i, of evs rng t0 t] show ?thesis by simp
    next
      case (AnswerSubmit a t)
      have r: "run (started rng t0) (evs @ [ev]) =
          deliver (run (started rng t0) evs) (AnswerSubmit a t)"
        unfolding AnswerSubmit by (rule run_snoc)
      from submit_record [OF l session_distinct, of a t]
      have "userAnswer (?ua ! i) \<noteq> None \<longrightarrow>
          userAnswers (gameState (deliver (run (started rng t0) evs) (AnswerSubmit a t))) ! i =
            ?ua ! i"
        by blast
      then show ?thesis unfolding r using AnswerSubmit by simp
    qed
  qed
  moreover note st session_length [of rng t0 evs] session_length [of rng t0 "evs @ [ev]"]
  ultimately show ?thesis by (intro conjI)
qed


theorem C3_resolved_at_most_once_witness:
  "(0::nat) < 30
   \<and> isPeriodEnd (PeriodEnd 19000)
   \<and> 5 \<le> periodsEnded (periodEnds 5 @ [AnswerSubmit ''7'' 17000])
   \<and> periodsEnded (periodEnds 5 @ [AnswerSubmit ''7'' 17000]) < 34
   \<and> answeredAt (userAnswers (gameState
       (run (started demoRng 1000) (periodEnds 5 @ [AnswerSubmit ''7'' 17000]))) ! 0) \<noteq> None
   \<and> userAnswer (userAnswers (gameState
       (run (started demoRng 1000) (periodEnds 5 @ [AnswerSubmit ''7'' 17000]))) ! 0) \<noteq> None
   \<and> userAnswer (userAnswers (gameState
       (run (started demoRng 1000)
          ((periodEnds 5 @ [AnswerSubmit ''7'' 17000]) @ [PeriodEnd 19000]))) ! 0) = Some 7
   \<and> isCorrect (userAnswers (gameState
       (run (started demoRng 1000)
          ((periodEnds 5 @ [AnswerSubmit ''7'' 17000]) @ [PeriodEnd 19000]))) ! 0) = Some True
   \<and> answeredAt (userAnswers (gameState
       (run (started demoRng 1000)
          ((periodEnds 5 @ [AnswerSubmit ''7'' 17000]) @ [PeriodEnd 19000]))) ! 0) = Some 19000
   \<and> (1::nat) < 30
   \<and> (1::nat) \<noteq> periodsEnded (periodEnds 5 @ [AnswerSubmit ''7'' 17000]) - 5
   \<and> userAnswers (gameState
       (run (started demoRng 1000)
          ((periodEnds 5 @ [AnswerSubmit ''7'' 17000]) @ [PeriodEnd 19000]))) ! 1 =
       userAnswers (gameState
       (run (started demoRng 1000) (periodEnds 5 @ [AnswerSubmit ''7'' 17000]))) ! 1
   \<and> \<not> isPeriodEnd (AnswerSubmit ''8'' 18000)
   \<and> userAnswers (gameState
       (run (started demoRng 1000)
          ((periodEnds 5 @ [AnswerSubmit ''7'' 17000]) @ [AnswerSubmit ''8'' 18000]))) ! 0 =
       userAnswers (gameState
       (run (started demoRng 1000) (periodEnds 5 @ [AnswerSubmit ''7'' 17000]))) ! 0"
proof -
  let ?evs = "periodEnds 5 @ [AnswerSubmit ''7'' 17000]"
  note T = C3_resolved_at_most_once [of demoRng 1000 ?evs "PeriodEnd 19000" 19000]
  note U = C3_resolved_at_most_once [of demoRng 1000 ?evs "AnswerSubmit ''8'' 18000" 19000]
  have k: "periodsEnded ?evs = 5" by (simp add: periodsEnded_snoc periodEnds_count)
  from T have old:
    "(0::nat) < 30
   \<and> isPeriodEnd (PeriodEnd 19000)
   \<and> 5 \<le> periodsEnded (periodEnds 5 @ [AnswerSubmit ''7'' 17000])
   \<and> periodsEnded (periodEnds 5 @ [AnswerSubmit ''7'' 17000]) < 34
   \<and> answeredAt (userAnswers (gameState
       (run (started demoRng 1000) (periodEnds 5 @ [AnswerSubmit ''7'' 17000]))) ! 0) \<noteq> None
   \<and> userAnswer (userAnswers (gameState
       (run (started demoRng 1000) (periodEnds 5 @ [AnswerSubmit ''7'' 17000]))) ! 0) \<noteq> None
   \<and> userAnswer (userAnswers (gameState
       (run (started demoRng 1000)
          ((periodEnds 5 @ [AnswerSubmit ''7'' 17000]) @ [PeriodEnd 19000]))) ! 0) = Some 7
   \<and> isCorrect (userAnswers (gameState
       (run (started demoRng 1000)
          ((periodEnds 5 @ [AnswerSubmit ''7'' 17000]) @ [PeriodEnd 19000]))) ! 0) = Some True
   \<and> answeredAt (userAnswers (gameState
       (run (started demoRng 1000)
          ((periodEnds 5 @ [AnswerSubmit ''7'' 17000]) @ [PeriodEnd 19000]))) ! 0) = Some 19000"
    by (simp add: demo_restamped(1) periodsEnded_snoc periodEnds_count)
  note Tn = T [THEN conjunct2, THEN conjunct2, THEN conjunct2, THEN conjunct2]
  note Un = U [THEN conjunct2, THEN conjunct2, THEN conjunct2, THEN conjunct2]
  from Tn [rule_format, of 1] k
  have n1: "userAnswers (gameState (run (started demoRng 1000) (?evs @ [PeriodEnd 19000]))) ! 1 =
      userAnswers (gameState (run (started demoRng 1000) ?evs)) ! 1"
    by simp
  from Un [rule_format, of 0]
  have n2: "userAnswers (gameState
        (run (started demoRng 1000) (?evs @ [AnswerSubmit ''8'' 18000]))) ! 0 =
      userAnswers (gameState (run (started demoRng 1000) ?evs)) ! 0"
    by (simp add: demo_restamped(1))
  have m: "(1::nat) < 30 \<and> (1::nat) \<noteq> periodsEnded ?evs - 5
      \<and> \<not> isPeriodEnd (AnswerSubmit ''8'' 18000)"
    by (simp add: k)
  from old n1 n2 m show ?thesis by blast
qed

text \<open>
  What the loop of one slot guarantees: it reads at least one and at most 20 draws in
  all (the first draw and at most 19 further ones), pushes the last draw it read, and
  that draw differs from the question before it in text and in answer unless it is the
  20th.
\<close>

lemma drawLoop_accepts:
  "drawLoop rng i qs a pos = (q, p) \<Longrightarrow> a < 20 \<Longrightarrow>
   pos < p \<and> p \<le> pos + (20 - a) \<and> q = generateQuestion i (rng (p - 1)) \<and>
   (qs = [] \<or>
    (questionText q \<noteq> questionText (last qs) \<and> correctAnswer q \<noteq> correctAnswer (last qs)) \<or>
    p = pos + (20 - a))"
proof (induction rng i qs a pos rule: drawLoop.induct)
  case (1 rng i qs a pos)
  show ?case
  proof (cases "Suc a < 20 \<and> qs \<noteq> [] \<and>
         (questionText (generateQuestion i (rng pos)) = questionText (last qs) \<or>
          correctAnswer (generateQuestion i (rng pos)) = correctAnswer (last qs))")
    case True
    then have "drawLoop rng i qs a pos = drawLoop rng i qs (Suc a) (Suc pos)"
      by (subst drawLoop.simps) simp
    with "1.prems" have "drawLoop rng i qs (Suc a) (Suc pos) = (q, p)" by simp
    from "1.IH" [OF True this] True show ?thesis by auto
  next
    case False
    then have "drawLoop rng i qs a pos = (generateQuestion i (rng pos), Suc pos)"
      by (subst drawLoop.simps) auto
    with "1.prems" have e: "q = generateQuestion i (rng pos)" "p = Suc pos" by simp_all
    with False "1.prems"(2) show ?thesis by auto
  qed
qed

text \<open>A draw is followed by another one only if it collided with the question before.\<close>

lemma drawLoop_redraws:
  "drawLoop rng i qs a pos = (q, p) \<Longrightarrow> pos \<le> j \<Longrightarrow> Suc j < p \<Longrightarrow>
   qs \<noteq> [] \<and>
   (questionText (generateQuestion i (rng j)) = questionText (last qs) \<or>
    correctAnswer (generateQuestion i (rng j)) = correctAnswer (last qs))"
proof (induction rng i qs a pos rule: drawLoop.induct)
  case (1 rng i qs a pos)
  show ?case
  proof (cases "Suc a < 20 \<and> qs \<noteq> [] \<and>
         (questionText (generateQuestion i (rng pos)) = questionText (last qs) \<or>
          correctAnswer (generateQuestion i (rng pos)) = correctAnswer (last qs))")
    case True
    then have "drawLoop rng i qs a pos = drawLoop rng i qs (Suc a) (Suc pos)"
      by (subst drawLoop.simps) simp
    with "1.prems" have d: "drawLoop rng i qs (Suc a) (Suc pos) = (q, p)" by simp
    show ?thesis
    proof (cases "j = pos")
      case True
      with \<open>Suc a < 20 \<and> qs \<noteq> [] \<and>
         (questionText (generateQuestion i (rng pos)) = questionText (last qs) \<or>
          correctAnswer (generateQuestion i (rng pos)) = correctAnswer (last qs))\<close>
      show ?thesis by simp
    next
      case False
      with "1.prems"(2) have "Suc pos \<le> j" by simp
      from "1.IH" [OF True d this "1.prems"(3)] show ?thesis .
    qed
  next
    case False
    then have "drawLoop rng i qs a pos = (generateQuestion i (rng pos), Suc pos)"
      by (subst drawLoop.simps) auto
    with "1.prems" have "p = Suc pos" by simp
    with "1.prems"(2,3) show ?thesis by simp
  qed
qed


text \<open>
  The concrete source that keeps drawing \<open>1 + 1\<close>: the first slot takes the draw at
  position 0; the second slot reads positions 1 to 20 and pushes the draw at position 20.
\<close>

lemma stuck_draws:
  "drawLoop stuckRng 1 [] 0 0 = (generateQuestion 1 (stuckRng 0), 1)
   \<and> drawLoop stuckRng 2 [generateQuestion 1 (stuckRng 0)] 0 1 =
     (generateQuestion 2 (stuckRng 20), 21)
   \<and> questionText (generateQuestion 1 (stuckRng 0)) = ''1 + 1 = ?''
   \<and> questionText (generateQuestion 2 (stuckRng 20)) = ''1 + 1 = ?''
   \<and> correctAnswer (generateQuestion 1 (stuckRng 0)) = 2
   \<and> correctAnswer (generateQuestion 2 (stuckRng 20)) = 2
   \<and> questionText (generateQuestion 2 (stuckRng 21)) = ''2 + 1 = ?''
   \<and> correctAnswer (generateQuestion 2 (stuckRng 21)) = 3"
  by code_simp

lemma stuck_slot:
  "slot stuckRng ([generateQuestion 1 (stuckRng 0)], [openAnswer 1], 1) 2 =
     ([generateQuestion 1 (stuckRng 0), generateQuestion 2 (stuckRng 20)],
      [openAnswer 1, openAnswer 2], 21)"
  using stuck_draws by (simp add: slot_def openAnswer_def)

text \<open>
  Counterexample to claim C9 as stated. The first question is \<open>1 + 1\<close>; for the second
  slot the source keeps drawing \<open>1 + 1\<close> (positions 1 to 20) and would draw \<open>2 + 1\<close>
  at position 21. The loop stops after the draw at position 20, its 20th draw, that is
  after 19 re-draws, not 20, and pushes a question equal to its predecessor in text and
  answer; a 20th re-draw would have read position 21 and found a question that differs
  in both.
\<close>

theorem C9_counterexample:
  "slot stuckRng ([], [], 0) 1 = ([generateQuestion 1 (stuckRng 0)], [openAnswer 1], 1)
   \<and> slot stuckRng ([generateQuestion 1 (stuckRng 0)], [openAnswer 1], 1) 2 =
     ([generateQuestion 1 (stuckRng 0), generateQuestion 2 (stuckRng 20)],
      [openAnswer 1, openAnswer 2], 21)
   \<and> (21::nat) - 1 - 1 = 19
   \<and> questionText (generateQuestion 2 (stuckRng 20)) =
       questionText (generateQuestion 1 (stuckRng 0))
   \<and> correctAnswer (generateQuestion 2 (stuckRng 20)) =
       correctAnswer (generateQuestion 1 (stuckRng 0))
   \<and> questionText (generateQuestion 2 (stuckRng 21)) \<noteq>
       questionText (generateQuestion 1 (stuckRng 0))
   \<and> correctAnswer (generateQuestion 2 (stuckRng 21)) \<noteq>
       correctAnswer (generateQuestion 1 (stuckRng 0))"
  using stuck_draws stuck_slot by (simp add: slot_def openAnswer_def)

text \<open>
  Claim C9, amended. For every slot of \<^verbatim>\<open>startGame\<close> the generator draws at least once
  and at most 20 times in all (the first draw and at most 19 re-draws); it draws again
  only when the drawn question has the text or the answer of the question pushed just
  before; it pushes the last draw it read. Hence every question pushed either differs
  from its predecessor in both text and answer, or is the 20th draw of its slot, which
  is accepted whatever it is (or it is the first question, which has no predecessor).
\<close>

theorem C9_at_most_twenty_draws:
  assumes "slot rng (qs, as, pos) i = (qs', as', p)"
  shows "qs' = qs @ [generateQuestion i (rng (p - 1))]
    \<and> as' = as @ [openAnswer i]
    \<and> pos < p \<and> p \<le> pos + 20
    \<and> (\<forall>j. pos \<le> j \<and> Suc j < p \<longrightarrow>
          qs \<noteq> [] \<and>
          (questionText (generateQuestion i (rng j)) = questionText (last qs) \<or>
           correctAnswer (generateQuestion i (rng j)) = correctAnswer (last qs)))
    \<and> (qs = [] \<or>
        (questionText (last qs') \<noteq> questionText (last qs) \<and>
         correctAnswer (last qs') \<noteq> correctAnswer (last qs)) \<or>
        p = pos + 20)"
proof -
  obtain q p' where d: "drawLoop rng i qs 0 pos = (q, p')"
    by (cases "drawLoop rng i qs 0 pos")
  from assms slot_step [OF d, of as]
  have e: "qs' = qs @ [q]" "as' = as @ [openAnswer i]" "p = p'" by simp_all
  from d e have d': "drawLoop rng i qs 0 pos = (q, p)" by simp
  from drawLoop_accepts [OF d'] have a: "pos < p \<and> p \<le> pos + 20"
    and g: "q = generateQuestion i (rng (p - 1))"
    and c: "qs = [] \<or>
      (questionText q \<noteq> questionText (last qs) \<and> correctAnswer q \<noteq> correctAnswer (last qs)) \<or>
      p = pos + 20"
    by auto
  have r: "\<forall>j. pos \<le> j \<and> Suc j < p \<longrightarrow>
          qs \<noteq> [] \<and>
          (questionText (generateQuestion i (rng j)) = questionText (last qs) \<or>
           correctAnswer (generateQuestion i (rng j)) = correctAnswer (last qs))"
    using drawLoop_redraws [OF d'] by blast
  have l: "last qs' = q" using e(1) by simp
  have x: "qs' = qs @ [generateQuestion i (rng (p - 1))]" using e(1) g by simp
  have y: "qs = [] \<or>
        (questionText (last qs') \<noteq> questionText (last qs) \<and>
         correctAnswer (last qs') \<noteq> correctAnswer (last qs)) \<or>
        p = pos + 20"
    using c l by simp
  from x e(2) a r y show ?thesis by (intro conjI) simp_all
qed

theorem C9_at_most_twenty_draws_witness:
  "slot stuckRng ([generateQuestion 1 (stuckRng 0)], [openAnswer 1], 1) 2 =
     ([generateQuestion 1 (stuckRng 0), generateQuestion 2 (stuckRng 20)],
      [openAnswer 1, openAnswer 2], 21)
   \<and> (1::nat) < 21 \<and> (21::nat) \<le> 1 + 20
   \<and> 1 \<le> (7::nat) \<and> Suc 7 < 21
   \<and> (questionText (generateQuestion 2 (stuckRng 7)) =
          questionText (last [generateQuestion 1 (stuckRng 0)]) \<or>
        correctAnswer (generateQuestion 2 (stuckRng 7)) =
          correctAnswer (last [generateQuestion 1 (stuckRng 0)]))
   \<and> (21::nat) = 1 + 20"
proof -
  from C9_at_most_twenty_draws [OF stuck_slot]
  have a: "\<forall>j. 1 \<le> j \<and> Suc j < 21 \<longrightarrow>
      [generateQuestion 1 (stuckRng 0)] \<noteq> [] \<and>
      (questionText (generateQuestion 2 (stuckRng j)) =
         questionText (last [generateQuestion 1 (stuckRng 0)]) \<or>
       correctAnswer (generateQuestion 2 (stuckRng j)) =
         correctAnswer (last [generateQuestion 1 (stuckRng 0)]))"
    by blast
  from a [rule_format, of 7] stuck_slot show ?thesis by simp
qed

lemma window_positive:
  "5 \<le> k \<Longrightarrow> windowAt k - 1 < 30 \<and> Suc (windowAt k - 1) = windowAt k"
  by (auto simp: windowAt_def)

text \<open>
  In a session, once the window is open, a submission for a record that is resolved (its
  \<open>answeredAt\<close> is set) is answered with the message that the question was answered
  already: the record of the question in the window carries a time only if a submission
  wrote it, and then it carries an answer, which is what the handler tests.
\<close>

lemma resolved_is_answered:
  assumes k: "5 \<le> periodsEnded evs" and t: "trim a \<noteq> []"
    and r: "answeredAt (userAnswers (gameState (run (started rng t0) evs)) !
              (windowAt (periodsEnded evs) - 1)) \<noteq> None"
  shows "handleAnswerSubmit a now (run (started rng t0) evs) =
         (AlreadyAnswered, run (started rng t0) evs)"
proof -
  let ?mg = "run (started rng t0) evs"
  let ?w = "windowAt (periodsEnded evs)"
  let ?ua = "userAnswers (gameState ?mg)"
  from window_positive [OF k] have i: "?w - 1 < 30" and w: "Suc (?w - 1) = ?w" by simp_all
  have can: "canAnswerQuestionId (gameState ?mg) = Some ?w"
    using shape_window [OF shape_session [of evs rng t0]] k by simp
  have "find (\<lambda>r. questionId r = Suc (?w - 1)) ?ua = Some (?ua ! (?w - 1))"
    using session_ids [of rng t0 evs] i by (intro find_numbered) simp_all
  then have fr: "find (\<lambda>r. questionId r = ?w) ?ua = Some (?ua ! (?w - 1))"
    by (simp only: w)
  have u: "userAnswer (?ua ! (?w - 1)) \<noteq> None"
  proof
    assume n: "userAnswer (?ua ! (?w - 1)) = None"
    have "?ua ! (?w - 1) = openAnswer (Suc (?w - 1))"
      by (rule session_untouched [OF i _ n]) (simp add: w)
    with r show False by (simp add: openAnswer_def)
  qed
  from w have "?w \<noteq> 0" by simp
  with can fr u t show ?thesis by (simp add: handleAnswerSubmit_def)
qed

text \<open>
  Claim C7. A call of \<^verbatim>\<open>handleAnswerSubmit\<close> that does not take an answer leaves the
  whole state of the component as it was: when no question may be answered (the handler
  has no parameter for a question, it always answers the one that may be answered, so
  this is the only way to submit for a question that is not eligible) it returns
  silently; when the record of the question already holds an answer it reports that, and
  in a session this is the case whenever that record is resolved; when the text is not a
  number it asks for a valid number. In general, whenever the text does not parse, and
  whenever the outcome is not an answer taken, the state after the call is the state
  before it.
\<close>

theorem C7_failed_submit_no_change:
  "(canAnswerQuestionId (gameState mg) = None \<longrightarrow>
      handleAnswerSubmit currentAnswer now mg = (Ignored, mg))
   \<and> (canAnswerQuestionId (gameState mg) = Some t \<and> t \<noteq> 0 \<and> trim currentAnswer \<noteq> [] \<and>
       find (\<lambda>a. questionId a = t) (userAnswers (gameState mg)) = Some r \<and>
       userAnswer r \<noteq> None \<longrightarrow>
      handleAnswerSubmit currentAnswer now mg = (AlreadyAnswered, mg))
   \<and> (5 \<le> periodsEnded evs \<and> trim currentAnswer \<noteq> [] \<and>
       answeredAt (userAnswers (gameState (run (started rng t0) evs)) !
         (windowAt (periodsEnded evs) - 1)) \<noteq> None \<longrightarrow>
      handleAnswerSubmit currentAnswer now (run (started rng t0) evs) =
        (AlreadyAnswered, run (started rng t0) evs))
   \<and> (canAnswerQuestionId (gameState mg) = Some t \<and> t \<noteq> 0 \<and> trim currentAnswer \<noteq> [] \<and>
       find (\<lambda>a. questionId a = t) (userAnswers (gameState mg)) = Some r \<and>
       userAnswer r = None \<and> parseInt currentAnswer = None \<longrightarrow>
      handleAnswerSubmit currentAnswer now mg = (InvalidNumber, mg))
   \<and> (parseInt currentAnswer = None \<longrightarrow> snd (handleAnswerSubmit currentAnswer now mg) = mg)
   \<and> ((\<forall>c. fst (handleAnswerSubmit currentAnswer now mg) \<noteq> Answered c) \<longrightarrow>
        snd (handleAnswerSubmit currentAnswer now mg) = mg)"
proof -
  have a: "canAnswerQuestionId (gameState mg) = None \<longrightarrow>
      handleAnswerSubmit currentAnswer now mg = (Ignored, mg)"
    by (simp add: handleAnswerSubmit_def)
  have b: "canAnswerQuestionId (gameState mg) = Some t \<and> t \<noteq> 0 \<and> trim currentAnswer \<noteq> [] \<and>
       find (\<lambda>a. questionId a = t) (userAnswers (gameState mg)) = Some r \<and>
       userAnswer r \<noteq> None \<longrightarrow>
      handleAnswerSubmit currentAnswer now mg = (AlreadyAnswered, mg)"
    by (auto simp: handleAnswerSubmit_def)
  have c: "5 \<le> periodsEnded evs \<and> trim currentAnswer \<noteq> [] \<and>
       answeredAt (userAnswers (gameState (run (started rng t0) evs)) !
         (windowAt (periodsEnded evs) - 1)) \<noteq> None \<longrightarrow>
      handleAnswerSubmit currentAnswer now (run (started rng t0) evs) =
        (AlreadyAnswered, run (started rng t0) evs)"
    using resolved_is_answered by blast
  have d: "canAnswerQuestionId (gameState mg) = Some t \<and> t \<noteq> 0 \<and> trim currentAnswer \<noteq> [] \<and>
       find (\<lambda>a. questionId a = t) (userAnswers (gameState mg)) = Some r \<and>
       userAnswer r = None \<and> parseInt currentAnswer = None \<longrightarrow>
      handleAnswerSubmit currentAnswer now mg = (InvalidNumber, mg)"
    by (auto simp: handleAnswerSubmit_def)
  have e: "parseInt currentAnswer = None \<longrightarrow> snd (handleAnswerSubmit currentAnswer now mg) = mg"
    by (auto simp: handleAnswerSubmit_def Let_def split: option.splits)
  have f: "(\<forall>c. fst (handleAnswerSubmit currentAnswer now mg) \<noteq> Answered c) \<longrightarrow>
        snd (handleAnswerSubmit currentAnswer now mg) = mg"
    by (auto simp: handleAnswerSubmit_def Let_def split: option.splits)
  from a b c d e f show ?thesis by (intro conjI)
qed

text \<open>
  The theorems above at concrete inputs: the session of the concrete source, in the first
  window, where question 1 is \<open>3 + 4\<close>.
\<close>

theorem C6_score_witness:
  "canAnswerQuestionId (gameState (run (started demoRng 1000) (periodEnds 5))) = Some 1
   \<and> parseInt ''7'' = Some 7 \<and> parseInt ''6'' = Some 6
   \<and> correctAnswer \<lparr>id_q = 1, num1 = 3, num2 = 4, operator = Plus, correctAnswer = 7,
        questionText = ''3 + 4 = ?''\<rparr> = 7
   \<and> fst (handleAnswerSubmit ''7'' 17000 (run (started demoRng 1000) (periodEnds 5))) =
       Answered True
   \<and> score (gameState (snd (handleAnswerSubmit ''7'' 17000
         (run (started demoRng 1000) (periodEnds 5))))) =
       score (gameState (run (started demoRng 1000) (periodEnds 5))) + 1
   \<and> find (\<lambda>a. questionId a = 1) (userAnswers (gameState (snd (handleAnswerSubmit ''7'' 17000
         (run (started demoRng 1000) (periodEnds 5)))))) =
       Some \<lparr>questionId = 1, userAnswer = Some 7, isCorrect = Some True,
             answeredAt = Some 17000\<rparr>
   \<and> fst (handleAnswerSubmit ''6'' 17000 (run (started demoRng 1000) (periodEnds 5))) =
       Answered False
   \<and> score (gameState (snd (handleAnswerSubmit ''6'' 17000
         (run (started demoRng 1000) (periodEnds 5))))) =
       score (gameState (run (started demoRng 1000) (periodEnds 5)))"
proof -
  have o: "userAnswer (openAnswer 1) = None" by (simp add: openAnswer_def)
  have z: "(1::nat) \<noteq> 0" by simp
  from C6_score [OF demo_window(2) z demo_window(5) o parse_examples(1) demo_window(6), of 17000]
    C6_score [OF demo_window(2) z demo_window(5) o parse_examples(2) demo_window(6), of 17000]
    demo_window(2) parse_examples(1,2)
  show ?thesis by (simp add: openAnswer_def)
qed

theorem C7_failed_submit_no_change_witness:
  "canAnswerQuestionId (gameState mounted) = None
   \<and> handleAnswerSubmit ''7'' 500 mounted = (Ignored, mounted)
   \<and> parseInt ''abc'' = None
   \<and> handleAnswerSubmit ''abc'' 17000 (run (started demoRng 1000) (periodEnds 5)) =
       (InvalidNumber, run (started demoRng 1000) (periodEnds 5))
   \<and> snd (handleAnswerSubmit ''abc'' 17000 (run (started demoRng 1000) (periodEnds 5))) =
       run (started demoRng 1000) (periodEnds 5)
   \<and> userAnswer (userAnswers (gameState
       (run (started demoRng 1000) (periodEnds 5 @ [AnswerSubmit ''7'' 17000]))) ! 0) \<noteq> None
   \<and> handleAnswerSubmit ''8'' 18000
       (run (started demoRng 1000) (periodEnds 5 @ [AnswerSubmit ''7'' 17000])) =
       (AlreadyAnswered, run (started demoRng 1000) (periodEnds 5 @ [AnswerSubmit ''7'' 17000]))"
proof -
  let ?m = "run (started demoRng 1000) (periodEnds 5)"
  let ?m' = "run (started demoRng 1000) (periodEnds 5 @ [AnswerSubmit ''7'' 17000])"
  have n: "canAnswerQuestionId (gameState mounted) = None" by (simp add: mounted_def)
  have a: "handleAnswerSubmit ''7'' 500 mounted = (Ignored, mounted)"
    using C7_failed_submit_no_change [where mg = mounted and currentAnswer = "''7''" and now = 500]
      n by blast
  have o: "userAnswer (openAnswer 1) = None" by (simp add: openAnswer_def)
  have b: "handleAnswerSubmit ''abc'' 17000 ?m = (InvalidNumber, ?m)"
    using C7_failed_submit_no_change
        [where mg = ?m and currentAnswer = "''abc''" and now = 17000 and t = 1
           and r = "openAnswer 1"]
      demo_window(2,5) o parse_examples(3,4) by simp
  have c: "canAnswerQuestionId (gameState ?m') = Some 1"
    using shape_session [of "periodEnds 5 @ [AnswerSubmit ''7'' 17000]" demoRng 1000]
    by (simp add: periodsEnded_snoc periodEnds_count shape_def)
  have "find (\<lambda>a. questionId a = Suc 0) (userAnswers (gameState ?m')) =
      Some (userAnswers (gameState ?m') ! 0)"
    using session_ids [of demoRng 1000 "periodEnds 5 @ [AnswerSubmit ''7'' 17000]"]
    by (intro find_numbered) simp_all
  then have f: "find (\<lambda>a. questionId a = 1) (userAnswers (gameState ?m')) =
      Some \<lparr>questionId = 1, userAnswer = Some 7, isCorrect = Some True,
            answeredAt = Some 17000\<rparr>"
    by (simp add: demo_restamped(1))
  have t: "trim ''8'' \<noteq> []" by (simp add: trim_def isWhiteSpace_def)
  have d: "handleAnswerSubmit ''8'' 18000 ?m' = (AlreadyAnswered, ?m')"
    using C7_failed_submit_no_change
        [where mg = ?m' and currentAnswer = "''8''" and now = 18000 and t = 1
           and r = "\<lparr>questionId = 1, userAnswer = Some 7, isCorrect = Some True,
                     answeredAt = Some 17000\<rparr>"]
      c f t by simp
  have w: "windowAt (periodsEnded (periodEnds 5 @ [AnswerSubmit ''7'' 17000])) - 1 = 0"
    by (simp add: periodsEnded_snoc periodEnds_count windowAt_def)
  have d': "handleAnswerSubmit ''8'' 18000 ?m' = (AlreadyAnswered, ?m')"
    using C7_failed_submit_no_change
        [where currentAnswer = "''8''" and now = 18000 and rng = demoRng and ?t0.0 = 1000
           and evs = "periodEnds 5 @ [AnswerSubmit ''7'' 17000]"]
      t w by (simp add: periodsEnded_snoc periodEnds_count demo_restamped(1))
  from n a b d d' parse_examples(3) show ?thesis by (simp add: demo_restamped(1))
qed

theorem C10_boundary_frame_witness:
  "finalEndPendingRef (run (started demoRng 1000) (periodEnds 34))
   \<and> \<not> isGameActive (gameState
        (periodBoundary 106000 (run (started demoRng 1000) (periodEnds 34))))
   \<and> gameEndTime (gameState
        (periodBoundary 106000 (run (started demoRng 1000) (periodEnds 34)))) = Some 106000
   \<and> score (gameState (periodBoundary 106000 (run (started demoRng 1000) (periodEnds 34)))) =
       score (gameState (run (started demoRng 1000) (periodEnds 34)))
   \<and> \<not> finalEndPendingRef (run (started demoRng 1000) (periodEnds 5))
   \<and> isGameActive (gameState
        (periodBoundary 19000 (run (started demoRng 1000) (periodEnds 5))))"
proof -
  have p: "finalEndPendingRef (run (started demoRng 1000) (periodEnds 34))"
    using shape_session [of "periodEnds 34" demoRng 1000]
    by (simp add: periodEnds_count shape_def)
  have q: "\<not> finalEndPendingRef (run (started demoRng 1000) (periodEnds 5))"
    using shape_session [of "periodEnds 5" demoRng 1000]
    by (simp add: periodEnds_count shape_def)
  from C10_boundary_frame [of 106000 "run (started demoRng 1000) (periodEnds 34)"]
    C10_boundary_frame [of 19000 "run (started demoRng 1000) (periodEnds 5)"]
    p q demo_window(1)
  show ?thesis by simp
qed

end
